theory Spec2Isabelle
  imports Complex_Main
begin

section \<open>Bernoulli bandits: environment, agents and the regret loop\<close>

text \<open>
  A shallow embedding of \<^verbatim>\<open>week6_outro/bandits.ipynb\<close>. Python exceptions are values
  of a sum type. The notebook's float64 numbers are modelled as real numbers; where the
  code can produce IEEE special values (a quotient by zero, the logarithm of zero) the
  type \<open>npfloat\<close> adds the two infinities and NaN to the reals. Rounding and signed
  zeros are not modelled. The functions of \<^verbatim>\<open>numpy.random\<close> are not part of the
  repository: they are a parameter of the model, a record of samplers that thread a
  generator state of any type.
\<close>

subsection \<open>Errors and numpy's random source\<close>

datatype error = ValueError | IndexError | KeyError

record 'g np_random =
  np_random_random :: "'g \<Rightarrow> real \<times> 'g"
  np_random_randint :: "int \<Rightarrow> int \<Rightarrow> 'g \<Rightarrow> int \<times> 'g"
  np_random_beta :: "real \<Rightarrow> real \<Rightarrow> 'g \<Rightarrow> real \<times> 'g"

text \<open>Indexing a numpy array of length \<open>n\<close> with a Python integer: a negative index
  counts from the end, anything outside \<open>[-n, n)\<close> raises IndexError.\<close>

definition np_index :: "nat \<Rightarrow> int \<Rightarrow> error + nat" where
  "np_index n i =
     (if 0 \<le> i \<and> i < int n then Inr (nat i)
      else if - int n \<le> i \<and> i < 0 then Inr (nat (i + int n))
      else Inl IndexError)"

text \<open>\<^verbatim>\<open>np.random.random(n)\<close>: \<open>n\<close> uniform draws, in order.\<close>

fun random_sample :: "'g np_random \<Rightarrow> nat \<Rightarrow> 'g \<Rightarrow> real list \<times> 'g" where
  "random_sample ops 0 g = ([], g)"
| "random_sample ops (Suc n) g =
     (let (u, g1) = np_random_random ops g;
          (us, g2) = random_sample ops n g1
      in (u # us, g2))"

subsection \<open>BernoulliBandit\<close>

record bandit =
  probs :: "real list"

definition bandit_init :: "'g np_random \<Rightarrow> int \<Rightarrow> 'g \<Rightarrow> error + (bandit \<times> 'g)" where
  "bandit_init ops n_actions g =
     (if n_actions < 0 then Inl ValueError
      else (let (ps, g') = random_sample ops (nat n_actions) g
            in Inr (\<lparr>probs = ps\<rparr>, g')))"

definition action_count :: "bandit \<Rightarrow> nat" where
  "action_count env = length (probs env)"

text \<open>\<^verbatim>\<open>pull\<close> draws first and indexes second, as Python evaluates the comparison
  left to right. It returns the reward and the generator; the bandit is not assigned to.\<close>

definition pull :: "'g np_random \<Rightarrow> bandit \<Rightarrow> int \<Rightarrow> 'g \<Rightarrow> error + (real \<times> 'g)" where
  "pull ops env action g =
     (let (u, g') = np_random_random ops g in
      case np_index (length (probs env)) action of
        Inl e \<Rightarrow> Inl e
      | Inr k \<Rightarrow> if u > probs env ! k then Inr (0, g') else Inr (1, g'))"

text \<open>\<^verbatim>\<open>np.max\<close> of an empty array raises ValueError.\<close>

definition optimal_reward :: "bandit \<Rightarrow> error + real" where
  "optimal_reward env =
     (case probs env of [] \<Rightarrow> Inl ValueError | p # ps \<Rightarrow> Inr (fold max ps p))"

text \<open>The bodies of \<^verbatim>\<open>step\<close> and \<^verbatim>\<open>reset\<close> are \<^verbatim>\<open>pass\<close> and a docstring: neither
  assigns to the bandit nor calls the random source.\<close>

definition step :: "bandit \<Rightarrow> 'g \<Rightarrow> bandit \<times> 'g" where
  "step env g = (env, g)"

definition reset :: "bandit \<Rightarrow> 'g \<Rightarrow> bandit \<times> 'g" where
  "reset env g = (env, g)"

subsection \<open>AbstractAgent: the counters and their update\<close>

record agent_state =
  successes :: "real list"
  failures :: "real list"
  total_pulls :: int

definition init_actions :: "nat \<Rightarrow> agent_state" where
  "init_actions n_actions =
     \<lparr>successes = replicate n_actions 0, failures = replicate n_actions 0, total_pulls = 0\<rparr>"

text \<open>\<^verbatim>\<open>update\<close> increments the pull counter before it indexes the count vector; an
  index out of range raises IndexError.\<close>

definition update :: "agent_state \<Rightarrow> int \<Rightarrow> real \<Rightarrow> error + agent_state" where
  "update st action reward =
     (let st1 = st\<lparr>total_pulls := total_pulls st + 1\<rparr> in
      if reward = 1 then
        (case np_index (length (successes st1)) action of
           Inl e \<Rightarrow> Inl e
         | Inr k \<Rightarrow> Inr (st1\<lparr>successes := (successes st1)[k := successes st1 ! k + 1]\<rparr>))
      else
        (case np_index (length (failures st1)) action of
           Inl e \<Rightarrow> Inl e
         | Inr k \<Rightarrow> Inr (st1\<lparr>failures := (failures st1)[k := failures st1 ! k + 1]\<rparr>)))"

text \<open>An agent state for \<open>K\<close> arms: both count vectors have length \<open>K\<close>.\<close>

definition arms :: "nat \<Rightarrow> agent_state \<Rightarrow> bool" where
  "arms K st = (length (successes st) = K \<and> length (failures st) = K)"

text \<open>The pull counter agrees with the counts: it is the sum over the arms of successes
  plus failures.\<close>

definition counts_sum :: "agent_state \<Rightarrow> real" where
  "counts_sum st = (\<Sum>k < length (successes st). successes st ! k + failures st ! k)"

definition pulls_consistent :: "agent_state \<Rightarrow> bool" where
  "pulls_consistent st =
     (length (successes st) = length (failures st) \<and> real_of_int (total_pulls st) = counts_sum st)"

subsection \<open>float64 values with infinities and NaN\<close>

datatype npfloat = Fin real | PInf | NInf | NaN

fun fadd :: "npfloat \<Rightarrow> npfloat \<Rightarrow> npfloat" where
  "fadd NaN y = NaN"
| "fadd x NaN = NaN"
| "fadd (Fin x) (Fin y) = Fin (x + y)"
| "fadd PInf NInf = NaN"
| "fadd NInf PInf = NaN"
| "fadd PInf y = PInf"
| "fadd NInf y = NInf"
| "fadd x PInf = PInf"
| "fadd x NInf = NInf"

fun fmul :: "npfloat \<Rightarrow> npfloat \<Rightarrow> npfloat" where
  "fmul NaN y = NaN"
| "fmul x NaN = NaN"
| "fmul (Fin x) (Fin y) = Fin (x * y)"
| "fmul (Fin x) PInf = (if x = 0 then NaN else if 0 < x then PInf else NInf)"
| "fmul (Fin x) NInf = (if x = 0 then NaN else if 0 < x then NInf else PInf)"
| "fmul PInf (Fin y) = (if y = 0 then NaN else if 0 < y then PInf else NInf)"
| "fmul NInf (Fin y) = (if y = 0 then NaN else if 0 < y then NInf else PInf)"
| "fmul PInf PInf = PInf"
| "fmul NInf NInf = PInf"
| "fmul PInf NInf = NInf"
| "fmul NInf PInf = NInf"

text \<open>numpy's \<^verbatim>\<open>true_divide\<close> does not raise: a zero divisor gives NaN for \<open>0/0\<close> and an
  infinity otherwise (with a RuntimeWarning).\<close>

fun fdiv :: "npfloat \<Rightarrow> npfloat \<Rightarrow> npfloat" where
  "fdiv NaN y = NaN"
| "fdiv x NaN = NaN"
| "fdiv (Fin x) (Fin y) =
     (if y = 0 then (if x = 0 then NaN else if 0 < x then PInf else NInf) else Fin (x / y))"
| "fdiv (Fin x) y = Fin 0"
| "fdiv PInf (Fin y) = (if 0 \<le> y then PInf else NInf)"
| "fdiv NInf (Fin y) = (if 0 \<le> y then NInf else PInf)"
| "fdiv x y = NaN"

text \<open>\<^verbatim>\<open>np.log\<close> of a Python integer: minus infinity at zero, NaN below.\<close>

definition flog :: "int \<Rightarrow> npfloat" where
  "flog n = (if 0 < n then Fin (ln (real_of_int n)) else if n = 0 then NInf else NaN)"

fun fsqrt :: "npfloat \<Rightarrow> npfloat" where
  "fsqrt (Fin x) = (if x < 0 then NaN else Fin (sqrt x))"
| "fsqrt PInf = PInf"
| "fsqrt NInf = NaN"
| "fsqrt NaN = NaN"

fun fle :: "npfloat \<Rightarrow> npfloat \<Rightarrow> bool" where
  "fle NaN y = False"
| "fle x NaN = False"
| "fle NInf y = True"
| "fle x PInf = True"
| "fle (Fin x) (Fin y) = (x \<le> y)"
| "fle x y = False"

text \<open>\<^verbatim>\<open>np.argmax\<close> scans from the left, keeps the running maximum \<open>mp\<close> and its
  index, replaces both when \<^verbatim>\<open>!(x <= mp)\<close>, and stops at the first NaN. An empty
  sequence raises ValueError.\<close>

fun argmax_scan :: "npfloat \<Rightarrow> nat \<Rightarrow> nat \<Rightarrow> npfloat list \<Rightarrow> nat" where
  "argmax_scan mp mi i [] = mi"
| "argmax_scan mp mi i (x # xs) =
     (if mp = NaN then mi
      else if \<not> fle x mp then argmax_scan x i (Suc i) xs
      else argmax_scan mp mi (Suc i) xs)"

definition np_argmax :: "npfloat list \<Rightarrow> error + nat" where
  "np_argmax xs = (case xs of [] \<Rightarrow> Inl ValueError | x # xs' \<Rightarrow> Inr (argmax_scan x 0 1 xs'))"

text \<open>An elementwise operation on two one-dimensional arrays: equal lengths, or one of
  them of length one (broadcast); otherwise ValueError.\<close>

definition np_elementwise :: "('a \<Rightarrow> 'b \<Rightarrow> 'c) \<Rightarrow> 'a list \<Rightarrow> 'b list \<Rightarrow> error + 'c list" where
  "np_elementwise f xs ys =
     (if length xs = length ys then Inr (map2 f xs ys)
      else if length xs = 1 then Inr (map (f (hd xs)) ys)
      else if length ys = 1 then Inr (map (\<lambda>x. f x (hd ys)) xs)
      else Inl ValueError)"

text \<open>\<^verbatim>\<open>np.random.randint(low, high)\<close> raises ValueError unless \<open>low < high\<close>;
  \<^verbatim>\<open>np.random.beta(a, b)\<close> raises ValueError unless both parameters are positive.\<close>

definition np_randint :: "'g np_random \<Rightarrow> int \<Rightarrow> int \<Rightarrow> 'g \<Rightarrow> error + (int \<times> 'g)" where
  "np_randint ops low high g =
     (if low < high then Inr (np_random_randint ops low high g) else Inl ValueError)"

definition np_beta :: "'g np_random \<Rightarrow> real \<Rightarrow> real \<Rightarrow> 'g \<Rightarrow> error + (real \<times> 'g)" where
  "np_beta ops a b g =
     (if a \<le> 0 \<or> b \<le> 0 then Inl ValueError else Inr (np_random_beta ops a b g))"

subsection \<open>The agents' policies\<close>

text \<open>A policy takes the agent's counters and the generator and returns the chosen
  action together with both, since \<^verbatim>\<open>get_action\<close> may assign to either.\<close>

type_synonym 'g policy = "agent_state \<Rightarrow> 'g \<Rightarrow> error + (int \<times> agent_state \<times> 'g)"

definition random_get_action :: "'g np_random \<Rightarrow> 'g policy" where
  "random_get_action ops st g =
     (case np_randint ops 0 (int (length (successes st))) g of
        Inl e \<Rightarrow> Inl e
      | Inr (a, g') \<Rightarrow> Inr (a, st, g'))"

text \<open>\<^verbatim>\<open>self._successes + self._failures\<close>, the divisor of both index formulas.\<close>

definition pull_counts :: "agent_state \<Rightarrow> error + real list" where
  "pull_counts st = np_elementwise (+) (successes st) (failures st)"

text \<open>\<^verbatim>\<open>self._successes/(self._successes + self._failures)\<close>.\<close>

definition success_rates :: "agent_state \<Rightarrow> error + npfloat list" where
  "success_rates st =
     (case pull_counts st of
        Inl e \<Rightarrow> Inl e
      | Inr d \<Rightarrow> np_elementwise fdiv (map Fin (successes st)) (map Fin d))"

definition epsilon_greedy_get_action :: "'g np_random \<Rightarrow> real \<Rightarrow> 'g policy" where
  "epsilon_greedy_get_action ops epsilon st g =
     (let (u, g1) = np_random_random ops g in
      if u < epsilon then
        (case np_randint ops 0 (int (length (successes st))) g1 of
           Inl e \<Rightarrow> Inl e
         | Inr (a, g2) \<Rightarrow> Inr (a, st, g2))
      else
        (case success_rates st of
           Inl e \<Rightarrow> Inl e
         | Inr rates \<Rightarrow>
            (case np_argmax rates of
               Inl e \<Rightarrow> Inl e
             | Inr a \<Rightarrow> Inr (int a, st, g1))))"

text \<open>\<^verbatim>\<open>np.sqrt(2*np.log(self._total_pulls)/(self._successes + self._failures))\<close>.\<close>

definition ucb_bonus :: "agent_state \<Rightarrow> error + npfloat list" where
  "ucb_bonus st =
     (case pull_counts st of
        Inl e \<Rightarrow> Inl e
      | Inr d \<Rightarrow>
          Inr (map (\<lambda>c. fsqrt (fdiv (fmul (Fin 2) (flog (total_pulls st))) (Fin c))) d))"

definition ucb_get_action :: "'g policy" where
  "ucb_get_action st g =
     (case success_rates st of
        Inl e \<Rightarrow> Inl e
      | Inr rates \<Rightarrow>
         (case ucb_bonus st of
            Inl e \<Rightarrow> Inl e
          | Inr bonus \<Rightarrow>
             (case np_elementwise fadd rates bonus of
                Inl e \<Rightarrow> Inl e
              | Inr w \<Rightarrow>
                 (case np_argmax w of
                    Inl e \<Rightarrow> Inl e
                  | Inr a \<Rightarrow> Inr (int a, st, g)))))"

text \<open>The loop of \<^verbatim>\<open>ThompsonSamplingAgent.get_action\<close>: \<open>n\<close> iterations remain, \<open>i\<close> is the
  loop index, \<open>theta\<close> the samples so far. When the product of the two counts of arm \<open>i\<close>
  is zero, both stored counts are overwritten with 1 before the draw.\<close>

fun thompson_loop ::
  "'g np_random \<Rightarrow> nat \<Rightarrow> nat \<Rightarrow> agent_state \<Rightarrow> 'g \<Rightarrow> real list
     \<Rightarrow> error + (real list \<times> agent_state \<times> 'g)" where
  "thompson_loop ops 0 i st g theta = Inr (theta, st, g)"
| "thompson_loop ops (Suc n) i st g theta =
     (if \<not> (i < length (successes st) \<and> i < length (failures st)) then Inl IndexError
      else
        (let st1 = (if successes st ! i * failures st ! i = 0
                    then st\<lparr>successes := (successes st)[i := 1],
                            failures := (failures st)[i := 1]\<rparr>
                    else st)
         in case np_beta ops (successes st1 ! i) (failures st1 ! i) g of
              Inl e \<Rightarrow> Inl e
            | Inr (x, g') \<Rightarrow> thompson_loop ops n (Suc i) st1 g' (theta @ [x])))"

definition thompson_get_action :: "'g np_random \<Rightarrow> 'g policy" where
  "thompson_get_action ops st g =
     (case thompson_loop ops (length (successes st)) 0 st g [] of
        Inl e \<Rightarrow> Inl e
      | Inr (theta, st', g') \<Rightarrow>
         (case np_argmax (map Fin theta) of
            Inl e \<Rightarrow> Inl e
          | Inr a \<Rightarrow> Inr (int a, st', g')))"

subsection \<open>Agent objects\<close>

record 'g agent =
  agent_name :: string
  get_action :: "'g policy"
  counters :: agent_state

text \<open>The counters of an agent are created by \<^verbatim>\<open>init_actions\<close>, which \<^verbatim>\<open>get_regret\<close> calls
  at the start of every trial before any other method; until then the model holds empty
  vectors in their place.\<close>

definition unset :: agent_state where
  "unset = \<lparr>successes = [], failures = [], total_pulls = 0\<rparr>"

definition RandomAgent :: "'g np_random \<Rightarrow> 'g agent" where
  "RandomAgent ops =
     \<lparr>agent_name = ''RandomAgent'', get_action = random_get_action ops, counters = unset\<rparr>"

text \<open>The name of an epsilon-greedy agent formats its epsilon; Python's float formatting
  is a parameter.\<close>

definition EpsilonGreedyAgent :: "'g np_random \<Rightarrow> (real \<Rightarrow> string) \<Rightarrow> real \<Rightarrow> 'g agent" where
  "EpsilonGreedyAgent ops fmt epsilon =
     \<lparr>agent_name = ''EpsilonGreedyAgent(epsilon='' @ fmt epsilon @ '')'',
      get_action = epsilon_greedy_get_action ops epsilon, counters = unset\<rparr>"

definition UCBAgent :: "'g agent" where
  "UCBAgent = \<lparr>agent_name = ''UCBAgent'', get_action = ucb_get_action, counters = unset\<rparr>"

definition ThompsonSamplingAgent :: "'g np_random \<Rightarrow> 'g agent" where
  "ThompsonSamplingAgent ops =
     \<lparr>agent_name = ''ThompsonSamplingAgent'', get_action = thompson_get_action ops,
      counters = unset\<rparr>"

subsection \<open>get_regret\<close>

text \<open>The score table is the \<^verbatim>\<open>OrderedDict\<close> from agent name to a sequence of floats.
  The dict comprehension stores one row of \<open>n_steps\<close> zeros under every agent's name;
  a name that occurs twice keeps a single row.\<close>

type_synonym scores = "string \<rightharpoonup> npfloat list"

definition init_scores :: "'g agent list \<Rightarrow> nat \<Rightarrow> scores" where
  "init_scores agents n_steps =
     fold (\<lambda>ag m. m(agent_name ag \<mapsto> replicate n_steps (Fin 0))) agents Map.empty"

text \<open>\<^verbatim>\<open>scores[name][i] += x\<close>.\<close>

definition add_score :: "scores \<Rightarrow> string \<Rightarrow> nat \<Rightarrow> real \<Rightarrow> error + scores" where
  "add_score sc name i x =
     (case sc name of
        None \<Rightarrow> Inl KeyError
      | Some row \<Rightarrow>
          if i < length row then Inr (sc(name \<mapsto> row[i := fadd (row ! i) (Fin x)]))
          else Inl IndexError)"

text \<open>The model keeps a history of the run beside the program's own state: one event for
  every execution of the line that adds to a score, with the trial, the step, the
  position of the agent in the list, the optimal reward and the reward obtained. The
  source has no such variable; the history only names the quantities the properties
  speak about, and no branch of the model reads it.\<close>

record event =
  ev_trial :: nat
  ev_step :: nat
  ev_agent :: nat
  ev_optimal :: real
  ev_reward :: real

text \<open>One pass of the body of \<^verbatim>\<open>for agent in agents\<close>.\<close>

definition agent_turn ::
  "'g np_random \<Rightarrow> bandit \<Rightarrow> real \<Rightarrow> nat \<Rightarrow> nat \<Rightarrow> nat \<Rightarrow> 'g agent
     \<Rightarrow> scores \<Rightarrow> 'g \<Rightarrow> event list \<Rightarrow> error + ('g agent \<times> scores \<times> 'g \<times> event list)" where
  "agent_turn ops env opt trial i j ag sc g hist =
     (case get_action ag (counters ag) g of
        Inl e \<Rightarrow> Inl e
      | Inr (action, st1, g1) \<Rightarrow>
     (case pull ops env action g1 of
        Inl e \<Rightarrow> Inl e
      | Inr (reward, g2) \<Rightarrow>
     (case update st1 action reward of
        Inl e \<Rightarrow> Inl e
      | Inr st2 \<Rightarrow>
     (case add_score sc (agent_name ag) i (opt - reward) of
        Inl e \<Rightarrow> Inl e
      | Inr sc' \<Rightarrow>
          Inr (ag\<lparr>counters := st2\<rparr>, sc', g2,
               hist @ [\<lparr>ev_trial = trial, ev_step = i, ev_agent = j,
                        ev_optimal = opt, ev_reward = reward\<rparr>])))))"

fun agents_loop ::
  "'g np_random \<Rightarrow> bandit \<Rightarrow> real \<Rightarrow> nat \<Rightarrow> nat \<Rightarrow> nat \<Rightarrow> 'g agent list
     \<Rightarrow> scores \<Rightarrow> 'g \<Rightarrow> event list
     \<Rightarrow> error + ('g agent list \<times> scores \<times> 'g \<times> event list)" where
  "agents_loop ops env opt trial i j [] sc g hist = Inr ([], sc, g, hist)"
| "agents_loop ops env opt trial i j (ag # ags) sc g hist =
     (case agent_turn ops env opt trial i j ag sc g hist of
        Inl e \<Rightarrow> Inl e
      | Inr (ag', sc1, g1, hist1) \<Rightarrow>
     (case agents_loop ops env opt trial i (Suc j) ags sc1 g1 hist1 of
        Inl e \<Rightarrow> Inl e
      | Inr (ags', sc2, g2, hist2) \<Rightarrow> Inr (ag' # ags', sc2, g2, hist2)))"

text \<open>\<^verbatim>\<open>for i in range(n_steps)\<close>: \<open>n\<close> iterations remain, \<open>i\<close> is the loop index.\<close>

fun steps_loop ::
  "'g np_random \<Rightarrow> nat \<Rightarrow> nat \<Rightarrow> nat \<Rightarrow> bandit \<Rightarrow> 'g agent list
     \<Rightarrow> scores \<Rightarrow> 'g \<Rightarrow> event list
     \<Rightarrow> error + (bandit \<times> 'g agent list \<times> scores \<times> 'g \<times> event list)" where
  "steps_loop ops trial 0 i env agents sc g hist = Inr (env, agents, sc, g, hist)"
| "steps_loop ops trial (Suc n) i env agents sc g hist =
     (case optimal_reward env of
        Inl e \<Rightarrow> Inl e
      | Inr opt \<Rightarrow>
     (case agents_loop ops env opt trial i 0 agents sc g hist of
        Inl e \<Rightarrow> Inl e
      | Inr (agents1, sc1, g1, hist1) \<Rightarrow>
          (let (env1, g2) = step env g1
           in steps_loop ops trial n (Suc i) env1 agents1 sc1 g2 hist1)))"

text \<open>\<^verbatim>\<open>for trial in range(n_trials)\<close>: \<open>n\<close> trials remain.\<close>

fun trials_loop ::
  "'g np_random \<Rightarrow> nat \<Rightarrow> nat \<Rightarrow> nat \<Rightarrow> bandit \<Rightarrow> 'g agent list
     \<Rightarrow> scores \<Rightarrow> 'g \<Rightarrow> event list
     \<Rightarrow> error + (bandit \<times> 'g agent list \<times> scores \<times> 'g \<times> event list)" where
  "trials_loop ops n_steps 0 trial env agents sc g hist = Inr (env, agents, sc, g, hist)"
| "trials_loop ops n_steps (Suc n) trial env agents sc g hist =
     (let (env1, g1) = reset env g;
          agents1 = map (\<lambda>a. a\<lparr>counters := init_actions (action_count env1)\<rparr>) agents
      in case steps_loop ops trial n_steps 0 env1 agents1 sc g1 hist of
           Inl e \<Rightarrow> Inl e
         | Inr (env2, agents2, sc2, g2, hist2) \<Rightarrow>
             trials_loop ops n_steps n (Suc trial) env2 agents2 sc2 g2 hist2)"

text \<open>\<^verbatim>\<open>np.cumsum\<close> and the closing loop
  \<^verbatim>\<open>scores[agent.name] = np.cumsum(scores[agent.name]) / n_trials\<close>, run once for every
  agent of the list.\<close>

fun cumsum_from :: "npfloat \<Rightarrow> npfloat list \<Rightarrow> npfloat list" where
  "cumsum_from acc [] = []"
| "cumsum_from acc (x # xs) = fadd acc x # cumsum_from (fadd acc x) xs"

definition np_cumsum :: "npfloat list \<Rightarrow> npfloat list" where
  "np_cumsum xs = cumsum_from (Fin 0) xs"

fun average_scores :: "'g agent list \<Rightarrow> nat \<Rightarrow> scores \<Rightarrow> error + scores" where
  "average_scores [] n_trials sc = Inr sc"
| "average_scores (ag # ags) n_trials sc =
     (case sc (agent_name ag) of
        None \<Rightarrow> Inl KeyError
      | Some row \<Rightarrow>
          average_scores ags n_trials
            (sc(agent_name ag \<mapsto> map (\<lambda>x. fdiv x (Fin (real n_trials))) (np_cumsum row))))"

text \<open>\<^verbatim>\<open>get_regret\<close> with its history, and \<^verbatim>\<open>get_regret\<close> itself, which returns the
  scores only. The numbers of steps and trials are natural numbers: a negative
  \<^verbatim>\<open>range\<close> is not modelled.\<close>

definition get_regret_history ::
  "'g np_random \<Rightarrow> bandit \<Rightarrow> 'g agent list \<Rightarrow> nat \<Rightarrow> nat \<Rightarrow> 'g
     \<Rightarrow> error + (scores \<times> event list)" where
  "get_regret_history ops env agents n_steps n_trials g =
     (case trials_loop ops n_steps n_trials 0 env agents (init_scores agents n_steps) g [] of
        Inl e \<Rightarrow> Inl e
      | Inr (env', agents', sc, g', hist) \<Rightarrow>
         (case average_scores agents n_trials sc of
            Inl e \<Rightarrow> Inl e
          | Inr sc' \<Rightarrow> Inr (sc', hist)))"

definition get_regret ::
  "'g np_random \<Rightarrow> bandit \<Rightarrow> 'g agent list \<Rightarrow> nat \<Rightarrow> nat \<Rightarrow> 'g \<Rightarrow> error + scores" where
  "get_regret ops env agents n_steps n_trials g =
     (case get_regret_history ops env agents n_steps n_trials g of
        Inl e \<Rightarrow> Inl e
      | Inr (sc, hist) \<Rightarrow> Inr sc)"

subsection \<open>What the regret curve is meant to be\<close>

text \<open>The regret an agent has collected up to a step: the sum, over all events of the
  history that belong to agent \<open>j\<close> and to a step \<open>i \<le> t\<close>, of the optimal reward minus
  the reward obtained. The expected cumulative regret curve divides it by the number of
  trials. Both follow the specification's wording; \<open>run_keys\<close> lists the (trial, step,
  agent) triples of a complete run in the order of the three nested loops.\<close>

definition regret_upto :: "event list \<Rightarrow> nat \<Rightarrow> nat \<Rightarrow> real" where
  "regret_upto hist j t =
     (\<Sum>e\<leftarrow>hist. if ev_agent e = j \<and> ev_step e \<le> t then ev_optimal e - ev_reward e else 0)"

definition expected_curve :: "event list \<Rightarrow> nat \<Rightarrow> nat \<Rightarrow> nat \<Rightarrow> npfloat list" where
  "expected_curve hist j n_steps n_trials =
     map (\<lambda>t. Fin (regret_upto hist j t / real n_trials)) [0..<n_steps]"

definition ev_key :: "event \<Rightarrow> nat \<times> nat \<times> nat" where
  "ev_key e = (ev_trial e, ev_step e, ev_agent e)"

definition run_keys :: "nat \<Rightarrow> nat \<Rightarrow> nat \<Rightarrow> (nat \<times> nat \<times> nat) list" where
  "run_keys n_trials n_steps n_agents =
     concat (map (\<lambda>n. concat (map (\<lambda>i. map (\<lambda>j. (n, i, j)) [0..<n_agents]) [0..<n_steps]))
               [0..<n_trials])"

text \<open>The regret collected at one step alone: the content of one score bucket.\<close>

definition bucket :: "event list \<Rightarrow> nat \<Rightarrow> nat \<Rightarrow> real" where
  "bucket hist j i =
     (\<Sum>e\<leftarrow>hist. if ev_agent e = j \<and> ev_step e = i then ev_optimal e - ev_reward e else 0)"

text \<open>Counters as \<^verbatim>\<open>init_actions\<close> and \<^verbatim>\<open>update\<close> produce them: \<open>K\<close> arms, no negative
  count. A policy is well behaved on \<open>K\<close> arms when, from such counters, it returns an
  arm index in \<open>[0, K)\<close> and leaves such counters.\<close>

definition counts_ok :: "nat \<Rightarrow> agent_state \<Rightarrow> bool" where
  "counts_ok K st =
     (arms K st \<and> list_all (\<lambda>x. 0 \<le> x) (successes st) \<and> list_all (\<lambda>x. 0 \<le> x) (failures st))"

definition well_behaved :: "nat \<Rightarrow> 'g policy \<Rightarrow> bool" where
  "well_behaved K pol =
     (\<forall>st g. counts_ok K st \<longrightarrow>
        (\<exists>a st' g'. pol st g = Inr (a, st', g') \<and> 0 \<le> a \<and> a < int K \<and> counts_ok K st'))"

text \<open>Two invariants of the loops. The score table tracks the history when every
  agent's row holds, bucket by bucket, the regret the history records for it, and no
  other name has a row. The agents are in order when each has a well-behaved policy and
  counters of \<open>K\<close> arms.\<close>

definition scores_track :: "string list \<Rightarrow> nat \<Rightarrow> scores \<Rightarrow> event list \<Rightarrow> bool" where
  "scores_track ns T sc hist =
     ((\<forall>j < length ns. sc (ns ! j) = Some (map (\<lambda>i. Fin (bucket hist j i)) [0..<T]))
      \<and> dom sc \<subseteq> set ns)"

definition agents_ok :: "nat \<Rightarrow> 'g agent list \<Rightarrow> bool" where
  "agents_ok K ags = list_all (\<lambda>ag. well_behaved K (get_action ag) \<and> counts_ok K (counters ag)) ags"

text \<open>A uniform integer draw is in range when it lies in \<open>[low, high)\<close>, as
  \<^verbatim>\<open>np.random.randint\<close> promises.\<close>

definition randint_in_range :: "'g np_random \<Rightarrow> bool" where
  "randint_in_range ops =
     (\<forall>low high g. low < high \<longrightarrow>
        low \<le> fst (np_random_randint ops low high g) \<and> fst (np_random_randint ops low high g) < high)"

text \<open>Drawing one Beta sample for each parameter pair, in order; the parameter pairs the
  specification names (the counts plus one) and the stored counts themselves; and what it
  means for \<open>a\<close> to be the first index of a largest sample.\<close>

fun beta_draws :: "'g np_random \<Rightarrow> (real \<times> real) list \<Rightarrow> 'g \<Rightarrow> error + (real list \<times> 'g)" where
  "beta_draws ops [] g = Inr ([], g)"
| "beta_draws ops ((a, b) # ps) g =
     (case np_beta ops a b g of
        Inl e \<Rightarrow> Inl e
      | Inr (x, g1) \<Rightarrow>
         (case beta_draws ops ps g1 of
            Inl e \<Rightarrow> Inl e
          | Inr (xs, g2) \<Rightarrow> Inr (x # xs, g2)))"

definition smoothed_parameters :: "agent_state \<Rightarrow> (real \<times> real) list" where
  "smoothed_parameters st = map2 (\<lambda>s f. (s + 1, f + 1)) (successes st) (failures st)"

definition stored_parameters :: "agent_state \<Rightarrow> (real \<times> real) list" where
  "stored_parameters st = zip (successes st) (failures st)"

definition largest_at :: "real list \<Rightarrow> nat \<Rightarrow> bool" where
  "largest_at theta a =
     (a < length theta \<and> (\<forall>k < length theta. theta ! k \<le> theta ! a) \<and> (\<forall>k < a. theta ! k < theta ! a))"

subsection \<open>A deterministic random source for concrete runs\<close>

text \<open>The generator state is the list of Beta parameters requested so far. Every
  uniform draw is \<open>1/2\<close>, every integer draw is the lower bound, and a Beta draw with
  parameters \<open>a\<close> and \<open>b\<close> returns the mean \<open>a / (a + b)\<close>.\<close>

definition recording_source :: "(real \<times> real) list np_random" where
  "recording_source =
     \<lparr>np_random_random = (\<lambda>g. (1/2, g)),
      np_random_randint = (\<lambda>low high g. (low, g)),
      np_random_beta = (\<lambda>a b g. (a / (a + b), g @ [(a, b)]))\<rparr>"

section \<open>Properties\<close>

subsection \<open>Helper facts about the counters\<close>

lemma sum_list_update_add:
  "k < length xs \<Longrightarrow> (\<Sum>i < length xs. (xs[k := xs ! k + (1::real)]) ! i + ys ! i)
      = (\<Sum>i < length xs. xs ! i + ys ! i) + 1"
proof -
  assume k: "k < length xs"
  have "(\<Sum>i < length xs. (xs[k := xs ! k + 1]) ! i + ys ! i)
      = (\<Sum>i < length xs. (xs ! i + ys ! i) + (if i = k then 1 else 0))"
    by (rule sum.cong) (auto simp: nth_list_update)
  also have "\<dots> = (\<Sum>i < length xs. xs ! i + ys ! i) + (\<Sum>i < length xs. if i = k then 1 else 0)"
    by (simp add: sum.distrib)
  also have "(\<Sum>i < length xs. if i = k then 1 else 0) = (1::real)"
    using k by simp
  finally show ?thesis .
qed

lemma sum_list_update_add2:
  "k < length xs \<Longrightarrow> (\<Sum>i < length xs. ys ! i + (xs[k := xs ! k + (1::real)]) ! i)
      = (\<Sum>i < length xs. ys ! i + xs ! i) + 1"
  using sum_list_update_add [of k xs ys] by (simp add: add.commute)

lemma np_index_bound: "np_index n a = Inr k \<Longrightarrow> k < n"
  by (auto simp: np_index_def split: if_splits)

lemma update_valid_index:
  assumes "update st a r = Inr st'" and "length (successes st) = length (failures st)"
  shows "\<exists>k < length (successes st). 
     (r = 1 \<and> st' = st\<lparr>total_pulls := total_pulls st + 1, successes := (successes st)[k := successes st ! k + 1]\<rparr>)
   \<or> (r \<noteq> 1 \<and> st' = st\<lparr>total_pulls := total_pulls st + 1, failures := (failures st)[k := failures st ! k + 1]\<rparr>)"
proof (cases "r = 1")
  case True
  with assms(1) obtain k where k: "np_index (length (successes st)) a = Inr k"
    and s: "st' = st\<lparr>total_pulls := total_pulls st + 1, successes := (successes st)[k := successes st ! k + 1]\<rparr>"
    by (auto simp: update_def Let_def split: sum.splits)
  from np_index_bound [OF k] s True show ?thesis by blast
next
  case False
  with assms(1) obtain k where k: "np_index (length (failures st)) a = Inr k"
    and s: "st' = st\<lparr>total_pulls := total_pulls st + 1, failures := (failures st)[k := failures st ! k + 1]\<rparr>"
    by (auto simp: update_def Let_def split: sum.splits)
  from np_index_bound [OF k] s False assms(2) show ?thesis by auto
qed

subsection \<open>The environment's pull\<close>

text \<open>
  Claim C7. For an arm index \<open>action\<close> in \<open>[0, K)\<close>, \<^verbatim>\<open>pull\<close> draws one uniform value
  and returns 1.0 when that value is at most the arm's probability and 0.0 otherwise.
  The reward is therefore 0.0 or 1.0, and the call returns nothing but the reward and
  the generator after that one draw: the bandit itself is not changed.
\<close>

theorem pull_reward:
  assumes "0 \<le> action" and "action < int (length (probs env))"
  shows "pull ops env action g =
           Inr (if fst (np_random_random ops g) \<le> probs env ! nat action then 1 else 0,
                snd (np_random_random ops g))
         \<and> (\<exists>r g'. pull ops env action g = Inr (r, g') \<and> (r = 0 \<or> r = 1))"
  using assms by (auto simp: pull_def np_index_def split: prod.splits)

theorem pull_reward_witness:
  "(0::int) \<le> 1 \<and> (1::int) < int (length (probs \<lparr>probs = [1/4, 3/4]\<rparr>))
   \<and> pull recording_source \<lparr>probs = [1/4, 3/4]\<rparr> 1 [] = Inr (1, [])"
  using pull_reward [of 1 "\<lparr>probs = [1/4, 3/4]\<rparr>" recording_source "[]"]
  by (simp add: recording_source_def)

subsection \<open>The agents' update\<close>

text \<open>
  Claim C8. For an agent state with \<open>K\<close> arms, an action index in \<open>[0, K)\<close> and any
  reward, \<^verbatim>\<open>update\<close> returns normally, the pull counter has grown by one, and exactly
  one count has grown by one: the success count of that action when the reward equals
  1, its failure count otherwise. Every other count, and the other vector, is unchanged.
\<close>

theorem update_counts:
  assumes "arms K st" and "0 \<le> action" and "action < int K"
  shows "\<exists>st'. update st action reward = Inr st'
           \<and> total_pulls st' = total_pulls st + 1
           \<and> (if reward = 1
               then successes st' = (successes st)[nat action := successes st ! nat action + 1]
                    \<and> failures st' = failures st
               else failures st' = (failures st)[nat action := failures st ! nat action + 1]
                    \<and> successes st' = successes st)"
  using assms by (simp add: update_def arms_def np_index_def Let_def)

theorem update_counts_witness:
  "arms 2 (init_actions 2) \<and> (0::int) \<le> 1 \<and> (1::int) < int 2
   \<and> update (init_actions 2) 1 1 = Inr \<lparr>successes = [0, 1], failures = [0, 0], total_pulls = 1\<rparr>
   \<and> update (init_actions 2) 1 0 = Inr \<lparr>successes = [0, 0], failures = [0, 1], total_pulls = 1\<rparr>"
  using update_counts [of 2 "init_actions 2" 1 1] update_counts [of 2 "init_actions 2" 1 0]
  by (auto simp: arms_def init_actions_def numeral_2_eq_2)

text \<open>
  Claim C10. The pull counter equals the sum over the arms of successes plus failures
  after \<^verbatim>\<open>init_actions\<close>, and every call of \<^verbatim>\<open>update\<close> that returns keeps the
  equality, whatever the reward. (A call returns exactly when its action is an index of
  the count vector; any other raises IndexError.)
\<close>

theorem update_preserves_consistency:
  "pulls_consistent (init_actions n)
   \<and> (\<forall>st action reward st'. pulls_consistent st \<and> update st action reward = Inr st'
         \<longrightarrow> pulls_consistent st')"
proof (intro conjI allI impI)
  show "pulls_consistent (init_actions n)"
    by (simp add: pulls_consistent_def init_actions_def counts_sum_def)
next
  fix st action reward st'
  assume h: "pulls_consistent st \<and> update st action reward = Inr st'"
  then have len: "length (successes st) = length (failures st)"
    and tot: "real_of_int (total_pulls st) = counts_sum st"
    by (simp_all add: pulls_consistent_def)
  from update_valid_index [OF conjunct2 [OF h] len]
  obtain k where k: "k < length (successes st)"
    and c: "(reward = 1 \<and> st' = st\<lparr>total_pulls := total_pulls st + 1, successes := (successes st)[k := successes st ! k + 1]\<rparr>)
   \<or> (reward \<noteq> 1 \<and> st' = st\<lparr>total_pulls := total_pulls st + 1, failures := (failures st)[k := failures st ! k + 1]\<rparr>)"
    by blast
  from c show "pulls_consistent st'"
  proof
    assume "reward = 1 \<and> st' = st\<lparr>total_pulls := total_pulls st + 1, successes := (successes st)[k := successes st ! k + 1]\<rparr>"
    then show ?thesis using k len tot sum_list_update_add [OF k, of "failures st"]
      by (simp add: pulls_consistent_def counts_sum_def)
  next
    assume "reward \<noteq> 1 \<and> st' = st\<lparr>total_pulls := total_pulls st + 1, failures := (failures st)[k := failures st ! k + 1]\<rparr>"
    then show ?thesis using k len tot sum_list_update_add2 [of k "failures st" "successes st"]
      by (simp add: pulls_consistent_def counts_sum_def)
  qed
qed

theorem update_preserves_consistency_witness:
  "pulls_consistent (init_actions 2)
   \<and> update (init_actions 2) 0 1 = Inr \<lparr>successes = [1, 0], failures = [0, 0], total_pulls = 1\<rparr>
   \<and> pulls_consistent \<lparr>successes = [1, 0], failures = [0, 0], total_pulls = 1\<rparr>"
proof -
  have u: "update (init_actions 2) 0 1 = Inr \<lparr>successes = [1, 0], failures = [0, 0], total_pulls = 1\<rparr>"
    by (simp add: update_def init_actions_def np_index_def numeral_2_eq_2)
  from update_preserves_consistency [of 2] u show ?thesis by blast
qed

subsection \<open>The regret loop\<close>

lemma update_counts_ok:
  assumes "counts_ok K st" and "0 \<le> a" and "a < int K"
  shows "\<exists>st'. update st a r = Inr st' \<and> counts_ok K st'"
proof -
  have k: "nat a < K" using assms by linarith
  have s: "0 \<le> successes st ! nat a" "0 \<le> failures st ! nat a"
    using assms k by (auto simp: counts_ok_def arms_def list_all_length)
  show ?thesis
    using assms s k
    by (auto simp: update_def counts_ok_def arms_def np_index_def Let_def list_all_length nth_list_update)
qed

lemma pull_returns:
  assumes "0 \<le> a" and "a < int (length (probs env))"
  shows "\<exists>r g'. pull ops env a g = Inr (r, g')"
  using assms by (auto simp: pull_def np_index_def split: prod.splits)

lemma agent_turn_returns:
  assumes wb: "well_behaved K (get_action ag)" and ok: "counts_ok K (counters ag)"
    and K: "length (probs env) = K"
    and row: "sc (agent_name ag) = Some row" and i: "i < length row"
  shows "\<exists>ag' g' r. agent_turn ops env opt trial i j ag sc g hist =
            Inr (ag', sc(agent_name ag \<mapsto> row[i := fadd (row ! i) (Fin (opt - r))]), g',
                 hist @ [\<lparr>ev_trial = trial, ev_step = i, ev_agent = j,
                          ev_optimal = opt, ev_reward = r\<rparr>])
          \<and> agent_name ag' = agent_name ag \<and> get_action ag' = get_action ag
          \<and> counts_ok K (counters ag')"
proof -
  from wb ok obtain a st1 g1 where
    ga: "get_action ag (counters ag) g = Inr (a, st1, g1)" and a: "0 \<le> a" "a < int K"
    and ok1: "counts_ok K st1"
    unfolding well_behaved_def by blast
  from pull_returns [of a env ops g1] a K obtain r g2 where
    p: "pull ops env a g1 = Inr (r, g2)" by auto
  from update_counts_ok [OF ok1 a, of r] obtain st2 where
    u: "update st1 a r = Inr st2" and ok2: "counts_ok K st2" by blast
  show ?thesis
    using ga p u ok2 row i by (simp add: agent_turn_def add_score_def)
qed

lemma bucket_snoc:
  "bucket (hist @ [e]) j i =
     bucket hist j i + (if ev_agent e = j \<and> ev_step e = i then ev_optimal e - ev_reward e else 0)"
  by (simp add: bucket_def)

lemma scores_track_step:
  assumes tr: "scores_track ns T sc hist" and d: "distinct ns" and j: "j < length ns"
    and i: "i < T"
    and e: "e = \<lparr>ev_trial = trial, ev_step = i, ev_agent = j, ev_optimal = opt, ev_reward = r\<rparr>"
    and row: "row = map (\<lambda>i. Fin (bucket hist j i)) [0..<T]"
  shows "scores_track ns T (sc(ns ! j \<mapsto> row[i := fadd (row ! i) (Fin (opt - r))])) (hist @ [e])"
  unfolding scores_track_def
proof (intro conjI allI impI)
  show "dom (sc(ns ! j \<mapsto> row[i := fadd (row ! i) (Fin (opt - r))])) \<subseteq> set ns"
    using tr j by (auto simp: scores_track_def)
next
  fix j' assume j': "j' < length ns"
  show "(sc(ns ! j \<mapsto> row[i := fadd (row ! i) (Fin (opt - r))])) (ns ! j')
        = Some (map (\<lambda>i. Fin (bucket (hist @ [e]) j' i)) [0..<T])"
  proof (cases "j' = j")
    case True
    have "row[i := fadd (row ! i) (Fin (opt - r))] = map (\<lambda>i. Fin (bucket (hist @ [e]) j i)) [0..<T]"
      using i by (auto simp: list_eq_iff_nth_eq row nth_list_update bucket_snoc e)
    with True show ?thesis by simp
  next
    case False
    then have "ns ! j' \<noteq> ns ! j" using d j j' by (simp add: nth_eq_iff_index_eq)
    moreover have "\<And>i. bucket (hist @ [e]) j' i = bucket hist j' i"
      using False by (simp add: bucket_snoc e)
    ultimately show ?thesis using tr j' by (simp add: scores_track_def)
  qed
qed


lemma agents_loop_returns:
  assumes "distinct ns" and "map agent_name ags = drop j ns" and "agents_ok K ags"
    and "length (probs env) = K" and "i < T" and "scores_track ns T sc hist"
  shows "\<exists>ags' sc' g' es. agents_loop ops env opt trial i j ags sc g hist = Inr (ags', sc', g', hist @ es)
          \<and> map agent_name ags' = map agent_name ags \<and> map get_action ags' = map get_action ags
          \<and> agents_ok K ags' \<and> scores_track ns T sc' (hist @ es)
          \<and> map ev_key es = map (\<lambda>j. (trial, i, j)) [j..<j + length ags]
          \<and> list_all (\<lambda>e. ev_optimal e = opt) es"
  using assms
proof (induction ags arbitrary: j sc g hist)
  case Nil
  then show ?case by (simp add: agents_ok_def)
next
  case (Cons ag ags)
  from Cons.prems(2) have j: "j < length ns"
    by (metis drop_all list.simps(3) list.map_disc_iff not_le_imp_less)
  from Cons.prems(2) j have nm: "agent_name ag = ns ! j" and rest: "map agent_name ags = drop (Suc j) ns"
    by (metis Cons_nth_drop_Suc list.inject list.simps(9))+
  let ?row = "map (\<lambda>i. Fin (bucket hist j i)) [0..<T]"
  have row: "sc (agent_name ag) = Some ?row"
    using Cons.prems(6) j nm by (simp add: scores_track_def)
  have wb: "well_behaved K (get_action ag)" and ok: "counts_ok K (counters ag)"
    and oks: "agents_ok K ags"
    using Cons.prems(3) by (simp_all add: agents_ok_def)
  have il: "i < length ?row" using Cons.prems(5) by simp
  from agent_turn_returns [of K ag env sc ?row i ops opt trial j g hist, OF wb ok Cons.prems(4) row il]
  obtain ag' g1 r where
    t: "agent_turn ops env opt trial i j ag sc g hist =
          Inr (ag', sc(agent_name ag \<mapsto> ?row[i := fadd (?row ! i) (Fin (opt - r))]), g1,
               hist @ [\<lparr>ev_trial = trial, ev_step = i, ev_agent = j, ev_optimal = opt, ev_reward = r\<rparr>])"
    and n': "agent_name ag' = agent_name ag" and p': "get_action ag' = get_action ag"
    and ok': "counts_ok K (counters ag')"
    by blast
  let ?e = "\<lparr>ev_trial = trial, ev_step = i, ev_agent = j, ev_optimal = opt, ev_reward = r\<rparr>"
  let ?sc1 = "sc(agent_name ag \<mapsto> ?row[i := fadd (?row ! i) (Fin (opt - r))])"
  have tr1: "scores_track ns T ?sc1 (hist @ [?e])"
    using scores_track_step [of ns T sc hist j i ?e trial opt r ?row, OF Cons.prems(6) Cons.prems(1) j Cons.prems(5) refl refl]
    by (simp add: nm)
  from Cons.IH [of "Suc j" ?sc1 "hist @ [?e]" g1, OF Cons.prems(1) rest oks Cons.prems(4) Cons.prems(5) tr1]
  obtain ags' sc' g' es where
    l: "agents_loop ops env opt trial i (Suc j) ags ?sc1 g1 (hist @ [?e]) = Inr (ags', sc', g', (hist @ [?e]) @ es)"
    and ns': "map agent_name ags' = map agent_name ags" and ps': "map get_action ags' = map get_action ags"
    and oks': "agents_ok K ags'" and tr': "scores_track ns T sc' ((hist @ [?e]) @ es)"
    and keys: "map ev_key es = map (\<lambda>j. (trial, i, j)) [Suc j..<Suc j + length ags]"
    and opts: "list_all (\<lambda>e. ev_optimal e = opt) es"
    by blast
  have up: "[j..<j + length (ag # ags)] = j # [Suc j..<Suc j + length ags]"
    using upt_conv_Cons [of j "j + Suc (length ags)"] by simp
  have "agents_loop ops env opt trial i j (ag # ags) sc g hist = Inr (ag' # ags', sc', g', hist @ (?e # es))"
    using t l by simp
  moreover have "agents_ok K (ag' # ags')"
    using oks' ok' wb p' by (simp add: agents_ok_def)
  moreover have "map ev_key (?e # es) = map (\<lambda>j. (trial, i, j)) [j..<j + length (ag # ags)]"
    unfolding up using keys by (simp add: ev_key_def)
  moreover have "scores_track ns T sc' (hist @ (?e # es))" using tr' by simp
  moreover have "list_all (\<lambda>e. ev_optimal e = opt) (?e # es)" using opts by simp
  ultimately show ?case using n' p' ns' ps'
    by (intro exI [of _ "ag' # ags'"] exI [of _ sc'] exI [of _ g'] exI [of _ "?e # es"]) simp
qed


lemma optimal_reward_returns: "probs env \<noteq> [] \<Longrightarrow> \<exists>opt. optimal_reward env = Inr opt"
  by (cases "probs env") (simp_all add: optimal_reward_def)

lemma steps_loop_returns:
  assumes "distinct ns" and "map agent_name agents = ns" and "agents_ok K agents"
    and "length (probs env) = K" and "0 < K" and "i + n \<le> T" and "scores_track ns T sc hist"
  shows "\<exists>agents' sc' g' es. steps_loop ops trial n i env agents sc g hist = Inr (env, agents', sc', g', hist @ es)
          \<and> map agent_name agents' = ns \<and> map get_action agents' = map get_action agents
          \<and> agents_ok K agents' \<and> scores_track ns T sc' (hist @ es)
          \<and> map ev_key es = concat (map (\<lambda>i. map (\<lambda>j. (trial, i, j)) [0..<length ns]) [i..<i + n])
          \<and> list_all (\<lambda>e. optimal_reward env = Inr (ev_optimal e)) es"
  using assms
proof (induction n arbitrary: i agents sc g hist)
  case 0
  then show ?case by simp
next
  case (Suc n)
  from Suc.prems(4,5) have "probs env \<noteq> []" by auto
  from optimal_reward_returns [OF this] obtain opt where opt: "optimal_reward env = Inr opt" ..
  have dr: "map agent_name agents = drop 0 ns" using Suc.prems(2) by simp
  have iT: "i < T" using Suc.prems(6) by simp
  from agents_loop_returns [of ns agents 0 K env i T sc hist ops opt trial g,
       OF Suc.prems(1) dr Suc.prems(3) Suc.prems(4) iT Suc.prems(7)]
  obtain agents1 sc1 g1 es1 where
    l: "agents_loop ops env opt trial i 0 agents sc g hist = Inr (agents1, sc1, g1, hist @ es1)"
    and n1: "map agent_name agents1 = map agent_name agents"
    and p1: "map get_action agents1 = map get_action agents"
    and ok1: "agents_ok K agents1" and tr1: "scores_track ns T sc1 (hist @ es1)"
    and k1: "map ev_key es1 = map (\<lambda>j. (trial, i, j)) [0..<0 + length agents]"
    and o1: "list_all (\<lambda>e. ev_optimal e = opt) es1"
    by blast
  have n1': "map agent_name agents1 = ns" using n1 Suc.prems(2) by simp
  have le: "Suc i + n \<le> T" using Suc.prems(6) by simp
  from Suc.IH [of agents1 "Suc i" sc1 "hist @ es1" g1,
       OF Suc.prems(1) n1' ok1 Suc.prems(4) Suc.prems(5) le tr1]
  obtain agents' sc' g' es where
    s: "steps_loop ops trial n (Suc i) env agents1 sc1 g1 (hist @ es1) = Inr (env, agents', sc', g', (hist @ es1) @ es)"
    and n': "map agent_name agents' = ns" and p': "map get_action agents' = map get_action agents1"
    and ok': "agents_ok K agents'" and tr': "scores_track ns T sc' ((hist @ es1) @ es)"
    and k': "map ev_key es = concat (map (\<lambda>i. map (\<lambda>j. (trial, i, j)) [0..<length ns]) [Suc i..<Suc i + n])"
    and o': "list_all (\<lambda>e. optimal_reward env = Inr (ev_optimal e)) es"
    by blast
  have len: "length agents = length ns" using Suc.prems(2) by (metis length_map)
  have up: "[i..<i + Suc n] = i # [Suc i..<Suc i + n]"
    using upt_conv_Cons [of i "i + Suc n"] by simp
  have "steps_loop ops trial (Suc n) i env agents sc g hist = Inr (env, agents', sc', g', hist @ (es1 @ es))"
    using opt l s by (simp add: step_def)
  moreover have "map ev_key (es1 @ es)
      = concat (map (\<lambda>i. map (\<lambda>j. (trial, i, j)) [0..<length ns]) [i..<i + Suc n])"
    unfolding up using k1 k' len by simp
  moreover have "list_all (\<lambda>e. optimal_reward env = Inr (ev_optimal e)) (es1 @ es)"
    using o1 o' opt by (auto simp: list_all_iff)
  moreover have "scores_track ns T sc' (hist @ (es1 @ es))" using tr' by simp
  ultimately show ?case using n' p' p1 ok'
    by (intro exI [of _ agents'] exI [of _ sc'] exI [of _ g'] exI [of _ "es1 @ es"]) simp
qed

lemma counts_ok_init: "counts_ok K (init_actions K)"
  by (simp add: counts_ok_def arms_def init_actions_def list_all_iff)

lemma trials_loop_returns:
  assumes "distinct ns" and "map agent_name agents = ns"
    and "list_all (\<lambda>ag. well_behaved K (get_action ag)) agents"
    and "length (probs env) = K" and "0 < K" and "scores_track ns T sc hist"
  shows "\<exists>agents' sc' g' es. trials_loop ops T n trial env agents sc g hist = Inr (env, agents', sc', g', hist @ es)
          \<and> scores_track ns T sc' (hist @ es)
          \<and> map ev_key es = concat (map (\<lambda>n. concat (map (\<lambda>i. map (\<lambda>j. (n, i, j)) [0..<length ns]) [0..<T]))
                                  [trial..<trial + n])
          \<and> list_all (\<lambda>e. optimal_reward env = Inr (ev_optimal e)) es"
  using assms
proof (induction n arbitrary: trial agents sc g hist)
  case 0
  then show ?case by simp
next
  case (Suc n)
  let ?agents1 = "map (\<lambda>a. a\<lparr>counters := init_actions K\<rparr>) agents"
  have n1: "map agent_name ?agents1 = ns" using Suc.prems(2) by (simp add: comp_def)
  have ok1: "agents_ok K ?agents1"
    using Suc.prems(3) by (simp add: agents_ok_def list_all_iff counts_ok_init)
  have le: "0 + T \<le> T" by simp
  from steps_loop_returns [of ns ?agents1 K env 0 T T sc hist ops trial g,
       OF Suc.prems(1) n1 ok1 Suc.prems(4) Suc.prems(5) le Suc.prems(6)]
  obtain agents2 sc2 g2 es1 where
    s: "steps_loop ops trial T 0 env ?agents1 sc g hist = Inr (env, agents2, sc2, g2, hist @ es1)"
    and n2: "map agent_name agents2 = ns" and p2: "map get_action agents2 = map get_action ?agents1"
    and tr2: "scores_track ns T sc2 (hist @ es1)"
    and k2: "map ev_key es1 = concat (map (\<lambda>i. map (\<lambda>j. (trial, i, j)) [0..<length ns]) [0..<0 + T])"
    and o2: "list_all (\<lambda>e. optimal_reward env = Inr (ev_optimal e)) es1"
    by blast
  have pe: "map get_action agents2 = map get_action agents" using p2 by (simp add: comp_def)
  have "list_all (well_behaved K) (map get_action agents)"
    using Suc.prems(3) by (simp add: list_all_iff)
  then have "list_all (well_behaved K) (map get_action agents2)" using pe by simp
  then have wb2: "list_all (\<lambda>ag. well_behaved K (get_action ag)) agents2"
    by (simp add: list_all_iff)
  from Suc.IH [of agents2 sc2 "hist @ es1" "Suc trial" g2,
       OF Suc.prems(1) n2 wb2 Suc.prems(4) Suc.prems(5) tr2]
  obtain agents' sc' g' es where
    t: "trials_loop ops T n (Suc trial) env agents2 sc2 g2 (hist @ es1) = Inr (env, agents', sc', g', (hist @ es1) @ es)"
    and tr': "scores_track ns T sc' ((hist @ es1) @ es)"
    and k': "map ev_key es = concat (map (\<lambda>n. concat (map (\<lambda>i. map (\<lambda>j. (n, i, j)) [0..<length ns]) [0..<T]))
                                  [Suc trial..<Suc trial + n])"
    and o': "list_all (\<lambda>e. optimal_reward env = Inr (ev_optimal e)) es"
    by blast
  have up: "[trial..<trial + Suc n] = trial # [Suc trial..<Suc trial + n]"
    using upt_conv_Cons [of trial "trial + Suc n"] by simp
  have "trials_loop ops T (Suc n) trial env agents sc g hist = Inr (env, agents', sc', g', hist @ (es1 @ es))"
    using s t Suc.prems(4) by (simp add: reset_def action_count_def)
  moreover have "map ev_key (es1 @ es)
      = concat (map (\<lambda>n. concat (map (\<lambda>i. map (\<lambda>j. (n, i, j)) [0..<length ns]) [0..<T]))
                                  [trial..<trial + Suc n])"
    unfolding up using k2 k' by simp
  moreover have "list_all (\<lambda>e. optimal_reward env = Inr (ev_optimal e)) (es1 @ es)"
    using o2 o' by simp
  moreover have "scores_track ns T sc' (hist @ (es1 @ es))" using tr' by simp
  ultimately show ?case
    by (intro exI [of _ agents'] exI [of _ sc'] exI [of _ g'] exI [of _ "es1 @ es"]) simp
qed

lemma fold_init_scores:
  "fold (\<lambda>ag m. m(agent_name ag \<mapsto> v)) agents m name
     = (if name \<in> set (map agent_name agents) then Some v else m name)"
  by (induction agents arbitrary: m) auto

lemma init_scores_lookup:
  "init_scores agents T name
     = (if name \<in> set (map agent_name agents) then Some (replicate T (Fin 0)) else None)"
  unfolding init_scores_def by (simp add: fold_init_scores del: set_map)

lemma scores_track_init: "scores_track (map agent_name agents) T (init_scores agents T) []"
proof -
  have "replicate T (Fin 0) = map (\<lambda>i. Fin (bucket [] j i)) [0..<T]" for j
    by (simp add: bucket_def list_eq_iff_nth_eq)
  moreover have "map agent_name agents ! j \<in> set (map agent_name agents)"
    if "j < length (map agent_name agents)" for j
    using that by (rule nth_mem)
  moreover have "dom (init_scores agents T) \<subseteq> set (map agent_name agents)"
    by (auto simp: init_scores_lookup split: if_splits simp del: set_map)
  ultimately show ?thesis
    unfolding scores_track_def init_scores_lookup by simp
qed

lemma average_scores_distinct:
  assumes "distinct (map agent_name ags)" and "\<forall>ag \<in> set ags. sc (agent_name ag) \<noteq> None"
  shows "average_scores ags N sc =
           Inr (\<lambda>name. if name \<in> set (map agent_name ags)
                        then map_option (\<lambda>row. map (\<lambda>x. fdiv x (Fin (real N))) (np_cumsum row)) (sc name)
                        else sc name)"
  using assms
proof (induction ags arbitrary: sc)
  case Nil
  then show ?case by simp
next
  case (Cons ag ags)
  from Cons.prems(2) obtain row where row: "sc (agent_name ag) = Some row" by auto
  let ?sc1 = "sc(agent_name ag \<mapsto> map (\<lambda>x. fdiv x (Fin (real N))) (np_cumsum row))"
  have d: "distinct (map agent_name ags)" and nin: "agent_name ag \<notin> set (map agent_name ags)"
    using Cons.prems(1) by simp_all
  have dom: "\<forall>a \<in> set ags. ?sc1 (agent_name a) \<noteq> None" using Cons.prems(2) by simp
  have "average_scores (ag # ags) N sc = average_scores ags N ?sc1" using row by simp
  also have "\<dots> = Inr (\<lambda>name. if name \<in> set (map agent_name ags)
                        then map_option (\<lambda>row. map (\<lambda>x. fdiv x (Fin (real N))) (np_cumsum row)) (?sc1 name)
                        else ?sc1 name)"
    by (rule Cons.IH [OF d dom])
  also have "(\<lambda>name. if name \<in> set (map agent_name ags)
                        then map_option (\<lambda>row. map (\<lambda>x. fdiv x (Fin (real N))) (np_cumsum row)) (?sc1 name)
                        else ?sc1 name)
     = (\<lambda>name. if name \<in> set (map agent_name (ag # ags))
                        then map_option (\<lambda>row. map (\<lambda>x. fdiv x (Fin (real N))) (np_cumsum row)) (sc name)
                        else sc name)"
    using nin row by (intro ext) auto
  finally show ?case .
qed

lemma cumsum_from_Fin:
  "cumsum_from (Fin a) (map Fin xs) = map (\<lambda>k. Fin (a + sum_list (take (Suc k) xs))) [0..<length xs]"
proof (induction xs arbitrary: a)
  case Nil
  then show ?case by simp
next
  case (Cons x xs)
  have "[0..<length (x # xs)] = 0 # map Suc [0..<length xs]"
    by (simp add: upt_conv_Cons map_Suc_upt del: upt_Suc)
  then show ?case using Cons.IH [of "a + x"]
    by (simp add: comp_def add.assoc del: upt_Suc)
qed

lemma np_cumsum_buckets:
  "np_cumsum (map (\<lambda>i. Fin (b i)) [0..<T]) = map (\<lambda>t. Fin (\<Sum>i\<le>t. b i)) [0..<T]"
proof -
  have "map (\<lambda>i. Fin (b i)) [0..<T] = map Fin (map b [0..<T])" by simp
  then have "np_cumsum (map (\<lambda>i. Fin (b i)) [0..<T])
       = map (\<lambda>k. Fin (0 + sum_list (take (Suc k) (map b [0..<T])))) [0..<T]"
    unfolding np_cumsum_def using cumsum_from_Fin [of 0 "map b [0..<T]"] by (simp add: comp_def)
  also have "\<dots> = map (\<lambda>t. Fin (\<Sum>i\<le>t. b i)) [0..<T]"
  proof (rule map_cong [OF refl])
    fix t assume "t \<in> set [0..<T]"
    then have t: "Suc t \<le> T" by simp
    have "take (Suc t) (map b [0..<T]) = map b [0..<Suc t]"
      using t by (simp add: take_map take_upt del: upt_Suc)
    moreover have "sum_list (map b [0..<Suc t]) = (\<Sum>i\<le>t. b i)"
      by (simp only: interv_sum_list_conv_sum_set_nat set_upt atLeast0LessThan lessThan_Suc_atMost)
    ultimately show "Fin (0 + sum_list (take (Suc t) (map b [0..<T]))) = Fin (\<Sum>i\<le>t. b i)"
      by simp
  qed
  finally show ?thesis .
qed

lemma bucket_sum: "(\<Sum>i\<le>t. bucket hist j i) = regret_upto hist j t"
proof (induction hist rule: rev_induct)
  case Nil
  then show ?case by (simp add: bucket_def regret_upto_def)
next
  case (snoc e hist)
  have "(\<Sum>i\<le>t. bucket (hist @ [e]) j i)
        = (\<Sum>i\<le>t. bucket hist j i) + (\<Sum>i\<le>t. if ev_agent e = j \<and> ev_step e = i then ev_optimal e - ev_reward e else 0)"
    by (simp add: bucket_snoc sum.distrib)
  also have "(\<Sum>i\<le>t. if ev_agent e = j \<and> ev_step e = i then ev_optimal e - ev_reward e else 0)
        = (if ev_agent e = j \<and> ev_step e \<le> t then ev_optimal e - ev_reward e else 0)"
  proof (cases "ev_agent e = j")
    case True
    then show ?thesis by (simp add: sum.delta)
  next
    case False
    then show ?thesis by simp
  qed
  finally show ?case using snoc.IH by (simp add: regret_upto_def)
qed




subsection \<open>The notebook's agents are well behaved\<close>

lemma argmax_scan_bound: "mi < i \<Longrightarrow> argmax_scan mp mi i xs < i + length xs"
proof (induction xs arbitrary: mp mi i)
  case Nil
  then show ?case by simp
next
  case (Cons x xs)
  have a: "argmax_scan x i (Suc i) xs < Suc i + length xs"
    using Cons.IH [of i "Suc i" x] by simp
  have b: "argmax_scan mp mi (Suc i) xs < Suc i + length xs"
    using Cons.IH [of mi "Suc i" mp] Cons.prems by simp
  show ?case using a b Cons.prems by simp
qed

lemma np_argmax_bound: "xs \<noteq> [] \<Longrightarrow> \<exists>a. np_argmax xs = Inr a \<and> a < length xs"
proof (cases xs)
  case Nil
  assume "xs \<noteq> []"
  with Nil show ?thesis by simp
next
  case (Cons x xs')
  with argmax_scan_bound [of 0 1 x xs'] show ?thesis by (simp add: np_argmax_def)
qed

lemma random_well_behaved:
  assumes "randint_in_range ops" and "0 < K"
  shows "well_behaved K (random_get_action ops)"
  unfolding well_behaved_def
proof (intro allI impI)
  fix st g assume ok: "counts_ok K st"
  then have len: "length (successes st) = K" by (simp add: counts_ok_def arms_def)
  obtain a g' where r: "np_random_randint ops 0 (int K) g = (a, g')" by (cases "np_random_randint ops 0 (int K) g")
  from assms r have "0 \<le> a \<and> a < int K"
    unfolding randint_in_range_def by (metis fst_conv of_nat_0_less_iff)
  then show "\<exists>a st' g'. random_get_action ops st g = Inr (a, st', g') \<and> 0 \<le> a \<and> a < int K \<and> counts_ok K st'"
    using ok len r assms(2) by (simp add: random_get_action_def np_randint_def)
qed

lemma success_rates_length:
  assumes "counts_ok K st"
  shows "\<exists>rates. success_rates st = Inr rates \<and> length rates = K"
  using assms by (simp add: success_rates_def pull_counts_def np_elementwise_def counts_ok_def arms_def)

lemma ucb_bonus_length:
  assumes "counts_ok K st"
  shows "\<exists>bonus. ucb_bonus st = Inr bonus \<and> length bonus = K"
  using assms by (simp add: ucb_bonus_def pull_counts_def np_elementwise_def counts_ok_def arms_def)

lemma epsilon_greedy_well_behaved:
  assumes "randint_in_range ops" and "0 < K"
  shows "well_behaved K (epsilon_greedy_get_action ops epsilon)"
  unfolding well_behaved_def
proof (intro allI impI)
  fix st g assume ok: "counts_ok K st"
  then have len: "length (successes st) = K" by (simp add: counts_ok_def arms_def)
  obtain u g1 where u: "np_random_random ops g = (u, g1)" by (cases "np_random_random ops g")
  show "\<exists>a st' g'. epsilon_greedy_get_action ops epsilon st g = Inr (a, st', g') \<and> 0 \<le> a \<and> a < int K \<and> counts_ok K st'"
  proof (cases "u < epsilon")
    case True
    obtain a g2 where r: "np_random_randint ops 0 (int K) g1 = (a, g2)" by (cases "np_random_randint ops 0 (int K) g1")
    from assms r have "0 \<le> a \<and> a < int K"
      unfolding randint_in_range_def by (metis fst_conv of_nat_0_less_iff)
    then show ?thesis
      using ok len r u True assms(2) by (simp add: epsilon_greedy_get_action_def np_randint_def)
  next
    case False
    from success_rates_length [OF ok] obtain rates where
      rt: "success_rates st = Inr rates" and rl: "length rates = K" by blast
    then have "rates \<noteq> []" using assms(2) by auto
    from np_argmax_bound [OF this] obtain a where "np_argmax rates = Inr a" "a < length rates" by blast
    then show ?thesis
      using ok u False rt rl by (simp add: epsilon_greedy_get_action_def)
  qed
qed

lemma ucb_well_behaved:
  assumes "0 < K"
  shows "well_behaved K ucb_get_action"
  unfolding well_behaved_def
proof (intro allI impI)
  fix st and g :: 'a assume ok: "counts_ok K st"
  from success_rates_length [OF ok] obtain rates where
    rt: "success_rates st = Inr rates" and rl: "length rates = K" by blast
  from ucb_bonus_length [OF ok] obtain bonus where
    bt: "ucb_bonus st = Inr bonus" and bl: "length bonus = K" by blast
  let ?w = "map2 fadd rates bonus"
  have w: "np_elementwise fadd rates bonus = Inr ?w" using rl bl by (simp add: np_elementwise_def)
  have "?w \<noteq> []" using rl bl assms by (cases rates; cases bonus) auto
  from np_argmax_bound [OF this] obtain a where "np_argmax ?w = Inr a" "a < length ?w" by blast
  then show "\<exists>a st' g'. ucb_get_action st g = Inr (a, st', g') \<and> 0 \<le> a \<and> a < int K \<and> counts_ok K st'"
    using ok rt bt w rl bl by (simp add: ucb_get_action_def)
qed

lemma thompson_loop_returns:
  assumes "counts_ok K st" and "i + n = K"
  shows "\<exists>theta' st' g'. thompson_loop ops n i st g theta = Inr (theta', st', g')
            \<and> length theta' = length theta + n \<and> counts_ok K st'"
  using assms
proof (induction n arbitrary: i st g theta)
  case 0
  then show ?case by simp
next
  case (Suc n)
  have i: "i < length (successes st)" "i < length (failures st)"
    using Suc.prems by (simp_all add: counts_ok_def arms_def)
  have nn: "0 \<le> successes st ! i" "0 \<le> failures st ! i"
    using Suc.prems(1) i by (simp_all add: counts_ok_def list_all_length)
  let ?st1 = "if successes st ! i * failures st ! i = 0
              then st\<lparr>successes := (successes st)[i := 1], failures := (failures st)[i := 1]\<rparr>
              else st"
  have ok1: "counts_ok K ?st1"
    using Suc.prems(1) i by (auto simp: counts_ok_def arms_def list_all_length nth_list_update)
  have pos: "0 < successes ?st1 ! i \<and> 0 < failures ?st1 ! i"
    using i nn by (auto simp: less_le)
  obtain x g1 where b: "np_random_beta ops (successes ?st1 ! i) (failures ?st1 ! i) g = (x, g1)"
    by (cases "np_random_beta ops (successes ?st1 ! i) (failures ?st1 ! i) g")
  have nb: "np_beta ops (successes ?st1 ! i) (failures ?st1 ! i) g = Inr (x, g1)"
    using pos b by (simp add: np_beta_def not_le)
  from Suc.IH [of ?st1 "Suc i" g1 "theta @ [x]", OF ok1] Suc.prems(2)
  obtain theta' st' g' where
    l: "thompson_loop ops n (Suc i) ?st1 g1 (theta @ [x]) = Inr (theta', st', g')"
    and len: "length theta' = length (theta @ [x]) + n" and ok': "counts_ok K st'"
    by auto
  have "thompson_loop ops (Suc n) i st g theta = Inr (theta', st', g')"
    using i nb l by (simp del: thompson_loop.simps(2) add: thompson_loop.simps(2) [of ops n i st g theta] Let_def)
  with len ok' show ?case by auto
qed

lemma thompson_well_behaved:
  assumes "0 < K"
  shows "well_behaved K (thompson_get_action ops)"
  unfolding well_behaved_def
proof (intro allI impI)
  fix st g assume ok: "counts_ok K st"
  then have len: "length (successes st) = K" by (simp add: counts_ok_def arms_def)
  from thompson_loop_returns [OF ok, of 0 K ops g "[]"] obtain theta st' g' where
    l: "thompson_loop ops K 0 st g [] = Inr (theta, st', g')" and tl: "length theta = K"
    and ok': "counts_ok K st'" by auto
  have "map Fin theta \<noteq> []" using tl assms by auto
  from np_argmax_bound [OF this] obtain a where "np_argmax (map Fin theta) = Inr a" "a < length theta"
    by auto
  then show "\<exists>a st' g'. thompson_get_action ops st g = Inr (a, st', g') \<and> 0 \<le> a \<and> a < int K \<and> counts_ok K st'"
    using l len tl ok' by (simp add: thompson_get_action_def)
qed

subsection \<open>Concrete runs\<close>

lemma randint_in_range_recording: "randint_in_range recording_source"
  by (simp add: randint_in_range_def recording_source_def)


lemmas run_defs = get_regret_history_def get_regret_def init_scores_def RandomAgent_def ThompsonSamplingAgent_def
  reset_def step_def action_count_def init_actions_def agent_turn_def random_get_action_def np_randint_def
  recording_source_def pull_def np_index_def update_def optimal_reward_def add_score_def np_cumsum_def unset_def
  thompson_get_action_def np_beta_def np_argmax_def Let_def

lemma dup_run:
  "case get_regret_history recording_source \<lparr>probs = [1/4]\<rparr>
          [RandomAgent recording_source, RandomAgent recording_source] 2 1 [] of
     Inl e \<Rightarrow> False
   | Inr (sc, hist) \<Rightarrow> sc ''RandomAgent'' = Some [Fin (1/2), Fin (3/2)]
        \<and> hist = [\<lparr>ev_trial = 0, ev_step = 0, ev_agent = 0, ev_optimal = 1/4, ev_reward = 0\<rparr>,
                  \<lparr>ev_trial = 0, ev_step = 0, ev_agent = 1, ev_optimal = 1/4, ev_reward = 0\<rparr>,
                  \<lparr>ev_trial = 0, ev_step = 1, ev_agent = 0, ev_optimal = 1/4, ev_reward = 0\<rparr>,
                  \<lparr>ev_trial = 0, ev_step = 1, ev_agent = 1, ev_optimal = 1/4, ev_reward = 0\<rparr>]"
  by (simp add: run_defs eval_nat_numeral)

lemma two_run:
  "case get_regret_history recording_source \<lparr>probs = [1/4, 3/4]\<rparr>
          [RandomAgent recording_source, ThompsonSamplingAgent recording_source] 2 1 [] of
     Inl e \<Rightarrow> False
   | Inr (sc, hist) \<Rightarrow> sc ''RandomAgent'' = Some [Fin (3/4), Fin (3/2)]
        \<and> sc ''ThompsonSamplingAgent'' = Some [Fin (3/4), Fin (1/2)]"
  by (simp add: run_defs eval_nat_numeral)

subsection \<open>The regret curve\<close>

text \<open>
  Claim C1, amended. For every environment with at least one arm, every list of agents
  with pairwise distinct names and well-behaved policies, every number of steps and
  every number of trials \<open>N \<ge> 1\<close>, \<^verbatim>\<open>get_regret\<close> returns a mapping whose keys are the
  agents' names; the history holds exactly one event per trial, step and agent, in loop
  order; and the sequence stored under the name of agent \<open>j\<close> has one value per step,
  the value at step \<open>t\<close> being \<open>1/N\<close> times the sum over all trials and all steps
  \<open>i \<le> t\<close> of the optimal reward minus the reward agent \<open>j\<close> obtained. The claim as
  stated, for every list of agents, fails when two agents share a name: they add to the
  same row and the closing loop sums and divides that row twice.
\<close>

theorem get_regret_curve:
  assumes d: "distinct (map agent_name agents)"
    and K: "probs env \<noteq> []" and N: "1 \<le> n_trials"
    and wb: "list_all (\<lambda>ag. well_behaved (length (probs env)) (get_action ag)) agents"
  shows "\<exists>sc hist. get_regret_history ops env agents n_steps n_trials g = Inr (sc, hist)
          \<and> get_regret ops env agents n_steps n_trials g = Inr sc
          \<and> dom sc = set (map agent_name agents)
          \<and> map ev_key hist = run_keys n_trials n_steps (length agents)
          \<and> (\<forall>j < length agents.
                sc (agent_name (agents ! j)) = Some (expected_curve hist j n_steps n_trials))"
proof -
  let ?ns = "map agent_name agents"
  let ?K = "length (probs env)"
  let ?f = "\<lambda>row. map (\<lambda>x. fdiv x (Fin (real n_trials))) (np_cumsum row)"
  have K0: "0 < ?K" using K by simp
  from trials_loop_returns [of ?ns agents ?K env n_steps "init_scores agents n_steps" "[]" ops n_trials 0 g,
       OF d refl wb refl K0 scores_track_init]
  obtain agents' sc1 g' hist where
    t: "trials_loop ops n_steps n_trials 0 env agents (init_scores agents n_steps) g [] = Inr (env, agents', sc1, g', hist)"
    and tr: "scores_track ?ns n_steps sc1 hist"
    and keys: "map ev_key hist = run_keys n_trials n_steps (length agents)"
    by (auto simp: run_keys_def)
  have rows: "sc1 (?ns ! j) = Some (map (\<lambda>i. Fin (bucket hist j i)) [0..<n_steps])"
    if "j < length agents" for j
    using tr that by (simp add: scores_track_def)
  have dom1: "dom sc1 \<subseteq> set ?ns" using tr by (simp add: scores_track_def)
  have nn: "\<forall>ag \<in> set agents. sc1 (agent_name ag) \<noteq> None"
  proof
    fix ag assume "ag \<in> set agents"
    then obtain j where "j < length agents" "agents ! j = ag" by (auto simp: in_set_conv_nth)
    with rows [of j] show "sc1 (agent_name ag) \<noteq> None" by auto
  qed
  let ?sc2 = "\<lambda>name. if name \<in> set ?ns then map_option ?f (sc1 name) else sc1 name"
  have avg: "average_scores agents n_trials sc1 = Inr ?sc2"
    by (rule average_scores_distinct [OF d nn])
  have h: "get_regret_history ops env agents n_steps n_trials g = Inr (?sc2, hist)"
    using t avg by (simp add: get_regret_history_def)
  have r: "get_regret ops env agents n_steps n_trials g = Inr ?sc2"
    using h by (simp add: get_regret_def)
  have dom2: "dom ?sc2 = set ?ns"
  proof
    show "dom ?sc2 \<subseteq> set ?ns" using dom1 by (auto split: if_splits simp: dom_def subset_iff)
    show "set ?ns \<subseteq> dom ?sc2"
    proof
      fix name assume a: "name \<in> set ?ns"
      then obtain ag where "ag \<in> set agents" "name = agent_name ag" by auto
      with nn have "sc1 name \<noteq> None" by simp
      with a show "name \<in> dom ?sc2" by (auto simp del: set_map)
    qed
  qed
  have curve: "?sc2 (agent_name (agents ! j)) = Some (expected_curve hist j n_steps n_trials)"
    if j: "j < length agents" for j
  proof -
    have m: "agent_name (agents ! j) \<in> set ?ns" using j by simp
    have n: "agent_name (agents ! j) = ?ns ! j" using j by simp
    have N0: "real n_trials \<noteq> 0" using N by simp
    have "?f (map (\<lambda>i. Fin (bucket hist j i)) [0..<n_steps])
            = map (\<lambda>t. fdiv (Fin (\<Sum>i\<le>t. bucket hist j i)) (Fin (real n_trials))) [0..<n_steps]"
      by (simp add: np_cumsum_buckets comp_def)
    also have "\<dots> = expected_curve hist j n_steps n_trials"
      using N0 by (simp add: expected_curve_def bucket_sum)
    finally show ?thesis using m rows [OF j] n by (simp del: set_map)
  qed
  from h r dom2 keys curve show ?thesis by blast
qed

theorem get_regret_curve_witness:
  "distinct (map agent_name [RandomAgent recording_source, ThompsonSamplingAgent recording_source])
   \<and> probs \<lparr>probs = [1/4, 3/4]\<rparr> \<noteq> [] \<and> (1::nat) \<le> 1
   \<and> list_all (\<lambda>ag. well_behaved (length (probs \<lparr>probs = [1/4, 3/4]\<rparr>)) (get_action ag))
        [RandomAgent recording_source, ThompsonSamplingAgent recording_source]
   \<and> (\<exists>sc hist.
         get_regret_history recording_source \<lparr>probs = [1/4, 3/4]\<rparr>
           [RandomAgent recording_source, ThompsonSamplingAgent recording_source] 2 1 [] = Inr (sc, hist)
         \<and> map ev_key hist = run_keys 1 2 2
         \<and> sc ''RandomAgent'' = Some (expected_curve hist 0 2 1)
         \<and> sc ''ThompsonSamplingAgent'' = Some (expected_curve hist 1 2 1)
         \<and> sc ''RandomAgent'' = Some [Fin (3/4), Fin (3/2)]
         \<and> sc ''ThompsonSamplingAgent'' = Some [Fin (3/4), Fin (1/2)])"
proof -
  let ?env = "\<lparr>probs = [1/4, 3/4]\<rparr>"
  let ?agents = "[RandomAgent recording_source, ThompsonSamplingAgent recording_source]"
  have d: "distinct (map agent_name ?agents)"
    by (simp add: RandomAgent_def ThompsonSamplingAgent_def)
  have K: "probs ?env \<noteq> []" by simp
  have N: "(1::nat) \<le> 1" by simp
  have wb: "list_all (\<lambda>ag. well_behaved (length (probs ?env)) (get_action ag)) ?agents"
    using random_well_behaved [OF randint_in_range_recording, of "Suc (Suc 0)"]
      thompson_well_behaved [of "Suc (Suc 0)" recording_source]
    by (simp add: RandomAgent_def ThompsonSamplingAgent_def)
  from get_regret_curve [OF d K N wb, of recording_source 2 "[]"]
  obtain sc hist where
    r: "get_regret_history recording_source ?env ?agents 2 1 [] = Inr (sc, hist)"
    and k: "map ev_key hist = run_keys 1 2 (length ?agents)"
    and c: "\<forall>j < length ?agents. sc (agent_name (?agents ! j)) = Some (expected_curve hist j 2 1)"
    by blast
  from c have c0: "sc ''RandomAgent'' = Some (expected_curve hist 0 2 1)"
    by (auto simp: RandomAgent_def)
  from c have c1: "sc ''ThompsonSamplingAgent'' = Some (expected_curve hist 1 2 1)"
    by (auto simp: ThompsonSamplingAgent_def)
  from two_run r have v: "sc ''RandomAgent'' = Some [Fin (3/4), Fin (3/2)]
      \<and> sc ''ThompsonSamplingAgent'' = Some [Fin (3/4), Fin (1/2)]"
    by simp
  from k have k2: "map ev_key hist = run_keys 1 2 2" by (simp add: eval_nat_numeral)
  from d K N wb r k2 c0 c1 v show ?thesis by blast
qed

theorem get_regret_shared_name_counterexample:
  "\<exists>sc hist.
     get_regret_history recording_source \<lparr>probs = [1/4]\<rparr>
       [RandomAgent recording_source, RandomAgent recording_source] 2 1 [] = Inr (sc, hist)
     \<and> sc (agent_name (RandomAgent recording_source)) = Some [Fin (1/2), Fin (3/2)]
     \<and> expected_curve hist 0 2 1 = [Fin (1/4), Fin (1/2)]
     \<and> sc (agent_name (RandomAgent recording_source)) \<noteq> Some (expected_curve hist 0 2 1)"
proof -
  obtain sc hist where
    r: "get_regret_history recording_source \<lparr>probs = [1/4]\<rparr>
          [RandomAgent recording_source, RandomAgent recording_source] 2 1 [] = Inr (sc, hist)"
    using dup_run by (auto split: sum.splits)
  with dup_run have v: "sc ''RandomAgent'' = Some [Fin (1/2), Fin (3/2)]"
    and h: "hist = [\<lparr>ev_trial = 0, ev_step = 0, ev_agent = 0, ev_optimal = 1/4, ev_reward = 0\<rparr>,
                  \<lparr>ev_trial = 0, ev_step = 0, ev_agent = 1, ev_optimal = 1/4, ev_reward = 0\<rparr>,
                  \<lparr>ev_trial = 0, ev_step = 1, ev_agent = 0, ev_optimal = 1/4, ev_reward = 0\<rparr>,
                  \<lparr>ev_trial = 0, ev_step = 1, ev_agent = 1, ev_optimal = 1/4, ev_reward = 0\<rparr>]"
    by simp_all
  have e: "expected_curve hist 0 2 1 = [Fin (1/4), Fin (1/2)]"
    unfolding h by (simp add: expected_curve_def regret_upto_def eval_nat_numeral)
  have n: "agent_name (RandomAgent recording_source) = ''RandomAgent''"
    by (simp add: RandomAgent_def)
  from r v e show ?thesis unfolding n by simp
qed


subsection \<open>The environment across trials\<close>

lemma agent_turn_event:
  assumes "agent_turn ops env opt trial i j ag sc g hist = Inr (ag', sc', g', hist')"
  shows "\<exists>e. hist' = hist @ [e] \<and> ev_optimal e = opt"
  using assms by (auto simp: agent_turn_def split: sum.splits prod.splits)

lemma agents_loop_events:
  assumes "agents_loop ops env opt trial i j ags sc g hist = Inr (ags', sc', g', hist')"
  shows "\<exists>es. hist' = hist @ es \<and> list_all (\<lambda>e. ev_optimal e = opt) es"
  using assms
proof (induction ags arbitrary: j sc g hist ags')
  case Nil
  then show ?case by simp
next
  case (Cons ag ags)
  from Cons.prems obtain ag1 sc1 g1 hist1 ags1 where
    t: "agent_turn ops env opt trial i j ag sc g hist = Inr (ag1, sc1, g1, hist1)"
    and l: "agents_loop ops env opt trial i (Suc j) ags sc1 g1 hist1 = Inr (ags1, sc', g', hist')"
    by (auto split: sum.splits prod.splits)
  from agent_turn_event [OF t] obtain e where e: "hist1 = hist @ [e]" "ev_optimal e = opt" by blast
  from Cons.IH [OF l] obtain es where es: "hist' = hist1 @ es" "list_all (\<lambda>e. ev_optimal e = opt) es"
    by blast
  from e es have "hist' = hist @ (e # es) \<and> list_all (\<lambda>e. ev_optimal e = opt) (e # es)" by simp
  then show ?case by blast
qed

lemma steps_loop_same_env:
  assumes "steps_loop ops trial n i env agents sc g hist = Inr (env', agents', sc', g', hist')"
  shows "env' = env \<and> (\<exists>es. hist' = hist @ es \<and> list_all (\<lambda>e. optimal_reward env = Inr (ev_optimal e)) es)"
  using assms
proof (induction n arbitrary: i agents sc g hist)
  case 0
  then show ?case by simp
next
  case (Suc n)
  from Suc.prems obtain opt agents1 sc1 g1 hist1 where
    o: "optimal_reward env = Inr opt"
    and l: "agents_loop ops env opt trial i 0 agents sc g hist = Inr (agents1, sc1, g1, hist1)"
    and s: "steps_loop ops trial n (Suc i) env agents1 sc1 g1 hist1 = Inr (env', agents', sc', g', hist')"
    by (auto simp: step_def split: sum.splits prod.splits)
  from agents_loop_events [OF l] obtain es1 where
    e1: "hist1 = hist @ es1" "list_all (\<lambda>e. ev_optimal e = opt) es1" by blast
  from Suc.IH [OF s] obtain es where
    e2: "env' = env" "hist' = hist1 @ es" "list_all (\<lambda>e. optimal_reward env = Inr (ev_optimal e)) es"
    by blast
  have "list_all (\<lambda>e. optimal_reward env = Inr (ev_optimal e)) (es1 @ es)"
    using e1(2) e2(3) o by (auto simp: list_all_iff)
  with e1 e2 show ?case by auto
qed

lemma trials_loop_same_env:
  assumes "trials_loop ops T n trial env agents sc g hist = Inr (env', agents', sc', g', hist')"
  shows "env' = env \<and> (\<exists>es. hist' = hist @ es \<and> list_all (\<lambda>e. optimal_reward env = Inr (ev_optimal e)) es)"
  using assms
proof (induction n arbitrary: trial agents sc g hist)
  case 0
  then show ?case by simp
next
  case (Suc n)
  let ?agents1 = "map (\<lambda>a. a\<lparr>counters := init_actions (action_count env)\<rparr>) agents"
  from Suc.prems obtain env2 agents2 sc2 g2 hist2 where
    s: "steps_loop ops trial T 0 env ?agents1 sc g hist = Inr (env2, agents2, sc2, g2, hist2)"
    and t: "trials_loop ops T n (Suc trial) env2 agents2 sc2 g2 hist2 = Inr (env', agents', sc', g', hist')"
    by (auto simp: reset_def split: sum.splits prod.splits)
  from steps_loop_same_env [OF s] obtain es1 where
    e1: "env2 = env" "hist2 = hist @ es1" "list_all (\<lambda>e. optimal_reward env = Inr (ev_optimal e)) es1"
    by blast
  from Suc.IH [OF t [unfolded e1(1)]] obtain es where
    e2: "env' = env" "hist' = hist2 @ es" "list_all (\<lambda>e. optimal_reward env = Inr (ev_optimal e)) es"
    by blast
  have "list_all (\<lambda>e. optimal_reward env = Inr (ev_optimal e)) (es1 @ es)"
    using e1(3) e2(3) by simp
  with e1 e2 show ?case by auto
qed

lemma three_trials_run:
  "case get_regret_history recording_source \<lparr>probs = [1/4, 3/4]\<rparr> [RandomAgent recording_source] 1 3 [] of
     Inl e \<Rightarrow> False
   | Inr (sc, hist) \<Rightarrow> map ev_trial hist = [0, 1, 2] \<and> map ev_optimal hist = [3/4, 3/4, 3/4]"
  by (simp add: run_defs eval_nat_numeral)


text \<open>
  Claim C2, amended. \<^verbatim>\<open>reset\<close> does not redraw anything: it returns the bandit and the
  generator as they were. Consequently every step of every trial of \<^verbatim>\<open>get_regret\<close>
  runs against the probabilities the environment was constructed with: each event of
  the history carries the optimal reward of the bandit that was passed in.
\<close>

theorem reset_keeps_probs:
  "reset env g = (env, g)
   \<and> (get_regret_history ops env agents n_steps n_trials g0 = Inr (sc, hist)
        \<longrightarrow> list_all (\<lambda>e. optimal_reward env = Inr (ev_optimal e)) hist)"
proof (intro conjI impI)
  show "reset env g = (env, g)" by (simp add: reset_def)
next
  assume "get_regret_history ops env agents n_steps n_trials g0 = Inr (sc, hist)"
  then obtain env' agents' sc1 g' where
    "trials_loop ops n_steps n_trials 0 env agents (init_scores agents n_steps) g0 [] = Inr (env', agents', sc1, g', hist)"
    by (auto simp: get_regret_history_def split: sum.splits prod.splits)
  from trials_loop_same_env [OF this]
  show "list_all (\<lambda>e. optimal_reward env = Inr (ev_optimal e)) hist" by simp
qed

theorem reset_keeps_probs_witness:
  "\<exists>sc hist.
     get_regret_history recording_source \<lparr>probs = [1/4, 3/4]\<rparr> [RandomAgent recording_source] 1 3 []
       = Inr (sc, hist)
     \<and> map ev_trial hist = [0, 1, 2]
     \<and> list_all (\<lambda>e. optimal_reward \<lparr>probs = [1/4, 3/4]\<rparr> = Inr (ev_optimal e)) hist
     \<and> optimal_reward \<lparr>probs = [1/4, 3/4]\<rparr> = Inr (3/4)"
proof -
  obtain sc hist where
    r: "get_regret_history recording_source \<lparr>probs = [1/4, 3/4]\<rparr> [RandomAgent recording_source] 1 3 []
          = Inr (sc, hist)"
    using three_trials_run by (auto split: sum.splits)
  with three_trials_run have t: "map ev_trial hist = [0, 1, 2]" by simp
  from reset_keeps_probs [of "\<lparr>probs = [1/4, 3/4]\<rparr>" "[]" recording_source "[RandomAgent recording_source]" 1 3 "[]" sc hist] r
  have l: "list_all (\<lambda>e. optimal_reward \<lparr>probs = [1/4, 3/4]\<rparr> = Inr (ev_optimal e)) hist" by blast
  have o: "optimal_reward \<lparr>probs = [1/4, 3/4]\<rparr> = Inr (3/4)" by (simp add: optimal_reward_def)
  show ?thesis
    by (rule exI [of _ sc], rule exI [of _ hist], intro conjI) (rule r t l o)+
qed

theorem reset_redraw_counterexample:
  "reset \<lparr>probs = [1/4, 3/4]\<rparr> ([] :: (real \<times> real) list) = (\<lparr>probs = [1/4, 3/4]\<rparr>, [])
   \<and> bandit_init recording_source 2 [] = Inr (\<lparr>probs = [1/2, 1/2]\<rparr>, [])
   \<and> probs (fst (reset \<lparr>probs = [1/4, 3/4]\<rparr> ([] :: (real \<times> real) list))) \<noteq> [1/2, 1/2]"
  by (simp add: reset_def bandit_init_def recording_source_def eval_nat_numeral)

subsection \<open>Thompson sampling\<close>

lemma thompson_loop_draws:
  assumes "arms K st" and "i + n = K"
    and "list_all (\<lambda>x. 0 < x) (successes st)" and "list_all (\<lambda>x. 0 < x) (failures st)"
  shows "\<exists>xs g'. beta_draws ops (drop i (stored_parameters st)) g = Inr (xs, g')
            \<and> thompson_loop ops n i st g theta = Inr (theta @ xs, st, g') \<and> length xs = n"
  using assms
proof (induction n arbitrary: i g theta)
  case 0
  then show ?case by (simp add: stored_parameters_def arms_def)
next
  case (Suc n)
  have i: "i < length (successes st)" "i < length (failures st)"
    using Suc.prems by (simp_all add: arms_def)
  have pos: "0 < successes st ! i" "0 < failures st ! i"
    using Suc.prems(3,4) i by (simp_all add: list_all_length)
  have dr: "drop i (stored_parameters st)
            = (successes st ! i, failures st ! i) # drop (Suc i) (stored_parameters st)"
    using i Cons_nth_drop_Suc [of i "zip (successes st) (failures st)"]
    by (simp add: stored_parameters_def)
  obtain x g1 where b: "np_random_beta ops (successes st ! i) (failures st ! i) g = (x, g1)"
    by (cases "np_random_beta ops (successes st ! i) (failures st ! i) g")
  have nb: "np_beta ops (successes st ! i) (failures st ! i) g = Inr (x, g1)"
    using pos b by (simp add: np_beta_def not_le)
  from Suc.IH [of "Suc i" g1 "theta @ [x]"] Suc.prems
  obtain xs g' where
    d: "beta_draws ops (drop (Suc i) (stored_parameters st)) g1 = Inr (xs, g')"
    and l: "thompson_loop ops n (Suc i) st g1 (theta @ [x]) = Inr ((theta @ [x]) @ xs, st, g')"
    and len: "length xs = n"
    by auto
  have "beta_draws ops (drop i (stored_parameters st)) g = Inr (x # xs, g')"
    unfolding dr using nb d by simp
  moreover have "thompson_loop ops (Suc n) i st g theta = Inr (theta @ (x # xs), st, g')"
    using i pos nb l by simp
  ultimately show ?case using len by auto
qed

lemma argmax_scan_Fin:
  assumes "mi < length pre" and "\<forall>k < length pre. pre ! k \<le> pre ! mi"
    and "\<forall>k < mi. pre ! k < pre ! mi"
  shows "largest_at (pre @ xs) (argmax_scan (Fin (pre ! mi)) mi (length pre) (map Fin xs))"
  using assms
proof (induction xs arbitrary: pre mi)
  case Nil
  then show ?case by (simp add: largest_at_def)
next
  case (Cons x xs)
  show ?case
  proof (cases "x \<le> pre ! mi")
    case True
    have a: "mi < length (pre @ [x])" using Cons.prems(1) by simp
    have m: "(pre @ [x]) ! mi = pre ! mi" using Cons.prems(1) by (simp add: nth_append)
    have b: "\<forall>k < length (pre @ [x]). (pre @ [x]) ! k \<le> (pre @ [x]) ! mi"
      using Cons.prems(2) True m by (auto simp: nth_append less_Suc_eq)
    have c: "\<forall>k < mi. (pre @ [x]) ! k < (pre @ [x]) ! mi"
      using Cons.prems(1,3) m by (auto simp: nth_append)
    from Cons.IH [OF a b c] m True show ?thesis by simp
  next
    case False
    let ?p = "pre @ [x]"
    have a: "length pre < length ?p" by simp
    have m: "?p ! length pre = x" by simp
    have b: "\<forall>k < length ?p. ?p ! k \<le> ?p ! length pre"
    proof (intro allI impI)
      fix k assume "k < length ?p"
      then consider "k < length pre" | "k = length pre" by fastforce
      then show "?p ! k \<le> ?p ! length pre"
      proof cases
        case 1
        then have "pre ! k \<le> pre ! mi" using Cons.prems(2) by simp
        with False 1 show ?thesis by (simp add: nth_append)
      next
        case 2
        then show ?thesis by simp
      qed
    qed
    have c: "\<forall>k < length pre. ?p ! k < ?p ! length pre"
    proof (intro allI impI)
      fix k assume k: "k < length pre"
      then have "pre ! k \<le> pre ! mi" using Cons.prems(2) by simp
      with False k show "?p ! k < ?p ! length pre" by (simp add: nth_append)
    qed
    from Cons.IH [OF a b c] m False show ?thesis by simp
  qed
qed

lemma np_argmax_Fin:
  assumes "theta \<noteq> []"
  shows "\<exists>a. np_argmax (map Fin theta) = Inr a \<and> largest_at theta a"
proof -
  from assms obtain x xs where t: "theta = x # xs" by (cases theta) auto
  from argmax_scan_Fin [of 0 "[x]" xs] have "largest_at (x # xs) (argmax_scan (Fin x) 0 1 (map Fin xs))"
    by simp
  then show ?thesis by (simp add: t np_argmax_def)
qed


text \<open>
  Claim C3 says that \<^verbatim>\<open>ThompsonSamplingAgent.get_action\<close> leaves the stored counts
  unchanged in every state. The code does not: for an arm whose success or failure
  count is zero it overwrites both counts with 1. After three successes and no failure
  on the only arm the counts \<open>(3, 0)\<close> become \<open>(1, 1)\<close>, and from the initial state of
  two arms all four counts become 1 while the pull counter stays 0.
\<close>

theorem thompson_overwrites_counts:
  "thompson_get_action recording_source \<lparr>successes = [3], failures = [0], total_pulls = 3\<rparr> []
     = Inr (0, \<lparr>successes = [1], failures = [1], total_pulls = 3\<rparr>, [(1, 1)])
   \<and> thompson_get_action recording_source (init_actions 2) []
     = Inr (0, \<lparr>successes = [1, 1], failures = [1, 1], total_pulls = 0\<rparr>, [(1, 1), (1, 1)])"
  by (simp add: thompson_get_action_def np_beta_def np_argmax_def recording_source_def
        init_actions_def eval_nat_numeral)


text \<open>
  Claim C4, amended. In every agent state of \<open>K \<ge> 1\<close> arms in which every success count
  and every failure count is positive, \<^verbatim>\<open>get_action\<close> draws for each arm, in index
  order, one sample from the Beta distribution with the stored counts themselves as
  parameters (not the counts plus one), leaves the counts as they are, and returns the
  first index whose sample is largest.
\<close>

theorem thompson_draws_stored_counts:
  assumes "arms K st" and "0 < K"
    and "list_all (\<lambda>x. 0 < x) (successes st)" and "list_all (\<lambda>x. 0 < x) (failures st)"
  shows "\<exists>theta g' a. beta_draws ops (stored_parameters st) g = Inr (theta, g')
            \<and> length theta = K
            \<and> thompson_get_action ops st g = Inr (int a, st, g')
            \<and> largest_at theta a"
proof -
  from thompson_loop_draws [OF assms(1) _ assms(3,4), of 0 K ops g "[]"]
  obtain theta g' where
    d: "beta_draws ops (stored_parameters st) g = Inr (theta, g')"
    and l: "thompson_loop ops K 0 st g [] = Inr (theta, st, g')" and len: "length theta = K"
    by auto
  have "theta \<noteq> []" using len assms(2) by auto
  from np_argmax_Fin [OF this] obtain a where
    a: "np_argmax (map Fin theta) = Inr a" "largest_at theta a" by blast
  have "thompson_get_action ops st g = Inr (int a, st, g')"
    using l a(1) assms(1) by (simp add: thompson_get_action_def arms_def)
  with d len a(2) show ?thesis by blast
qed

theorem thompson_draws_stored_counts_witness:
  "arms 2 \<lparr>successes = [2, 1], failures = [3, 1], total_pulls = 7\<rparr> \<and> (0::nat) < 2
   \<and> list_all (\<lambda>x. 0 < x) (successes \<lparr>successes = [2, 1], failures = [3, 1], total_pulls = 7\<rparr>)
   \<and> list_all (\<lambda>x. 0 < x) (failures \<lparr>successes = [2, 1], failures = [3, 1], total_pulls = 7\<rparr>)
   \<and> beta_draws recording_source
        (stored_parameters \<lparr>successes = [2, 1], failures = [3, 1], total_pulls = 7\<rparr>) []
        = Inr ([2/5, 1/2], [(2, 3), (1, 1)])
   \<and> thompson_get_action recording_source \<lparr>successes = [2, 1], failures = [3, 1], total_pulls = 7\<rparr> []
        = Inr (1, \<lparr>successes = [2, 1], failures = [3, 1], total_pulls = 7\<rparr>, [(2, 3), (1, 1)])
   \<and> largest_at [2/5, 1/2] 1"
proof -
  let ?st = "\<lparr>successes = [2, 1], failures = [3, 1], total_pulls = 7\<rparr>"
  have h1: "arms 2 ?st" by (simp add: arms_def)
  have h2: "(0::nat) < 2" by simp
  have h3: "list_all (\<lambda>x. 0 < x) (successes ?st)" by simp
  have h4: "list_all (\<lambda>x. 0 < x) (failures ?st)" by simp
  have d: "beta_draws recording_source (stored_parameters ?st) [] = Inr ([2/5, 1/2], [(2, 3), (1, 1)])"
    by (simp add: stored_parameters_def np_beta_def recording_source_def)
  from thompson_draws_stored_counts [OF h1 h2 h3 h4, of recording_source "[]"] d
  obtain a where g: "thompson_get_action recording_source ?st [] = Inr (int a, ?st, [(2, 3), (1, 1)])"
    and la: "largest_at [2/5, 1/2] a"
    by auto
  have "a = 1"
  proof (rule ccontr)
    assume "a \<noteq> 1"
    with la have "a = 0" by (auto simp: largest_at_def)
    with la show False by (auto simp: largest_at_def)
  qed
  with g la h1 h2 h3 h4 d show ?thesis by simp
qed

theorem thompson_smoothing_counterexample:
  "thompson_get_action recording_source \<lparr>successes = [2], failures = [3], total_pulls = 5\<rparr> []
     = Inr (0, \<lparr>successes = [2], failures = [3], total_pulls = 5\<rparr>, [(2, 3)])
   \<and> beta_draws recording_source
        (smoothed_parameters \<lparr>successes = [2], failures = [3], total_pulls = 5\<rparr>) []
     = Inr ([3/7], [(3, 4)])"
  by (simp add: thompson_get_action_def np_beta_def np_argmax_def recording_source_def
        smoothed_parameters_def)


subsection \<open>Arms without pulls\<close>

text \<open>
  Claim C5 says that neither the exploit branch of \<^verbatim>\<open>EpsilonGreedyAgent.get_action\<close> nor
  \<^verbatim>\<open>UCBAgent.get_action\<close> ever divides by zero or takes the logarithm of a non-positive
  number. In the initial state of two arms the code does both: the divisor vector is
  all zeros, every success rate is \<open>0/0\<close>, the logarithm is taken of a pull counter
  that is zero, and both index vectors consist of NaN, of which \<^verbatim>\<open>np.argmax\<close> returns the
  first position.
\<close>

theorem zero_pulls_divide_by_zero:
  "pull_counts (init_actions 2) = Inr [0, 0]
   \<and> success_rates (init_actions 2) = Inr [NaN, NaN]
   \<and> flog (total_pulls (init_actions 2)) = NInf
   \<and> ucb_bonus (init_actions 2) = Inr [NaN, NaN]
   \<and> epsilon_greedy_get_action recording_source (1/100) (init_actions 2) []
        = Inr (0, init_actions 2, [])
   \<and> ucb_get_action (init_actions 2) ([] :: (real \<times> real) list) = Inr (0, init_actions 2, [])"
  by (simp add: pull_counts_def success_rates_def ucb_bonus_def flog_def np_elementwise_def
        epsilon_greedy_get_action_def ucb_get_action_def np_argmax_def recording_source_def
        init_actions_def eval_nat_numeral)

subsection \<open>Degenerate configurations\<close>

lemma trials_loop_no_steps:
  "\<exists>agents'. trials_loop ops 0 n trial env agents sc g hist = Inr (env, agents', sc, g, hist)"
  by (induction n arbitrary: trial agents) (simp_all add: reset_def)

lemma trials_loop_no_arms:
  assumes "probs env = []"
  shows "trials_loop ops (Suc t) (Suc n) trial env agents sc g hist = Inl ValueError"
  using assms by (simp add: reset_def optimal_reward_def)

lemma average_scores_rows:
  assumes "\<forall>ag \<in> set ags. sc (agent_name ag) = Some a \<or> sc (agent_name ag) = Some b"
    and "map (\<lambda>x. fdiv x (Fin (real N))) (np_cumsum a) = b"
    and "map (\<lambda>x. fdiv x (Fin (real N))) (np_cumsum b) = b"
  shows "\<exists>sc'. average_scores ags N sc = Inr sc'
           \<and> (\<forall>ag \<in> set ags. sc' (agent_name ag) = Some b)
           \<and> (\<forall>name. name \<notin> agent_name ` set ags \<longrightarrow> sc' name = sc name)"
  using assms
proof (induction ags arbitrary: sc)
  case Nil
  then show ?case by simp
next
  case (Cons ag ags)
  from Cons.prems(1) obtain row where row: "sc (agent_name ag) = Some row" and ab: "row = a \<or> row = b"
    by auto
  let ?f = "\<lambda>row. map (\<lambda>x. fdiv x (Fin (real N))) (np_cumsum row)"
  have fr: "?f row = b" using ab Cons.prems(2,3) by auto
  let ?sc1 = "sc(agent_name ag \<mapsto> b)"
  have p: "\<forall>ag' \<in> set ags. ?sc1 (agent_name ag') = Some a \<or> ?sc1 (agent_name ag') = Some b"
    using Cons.prems(1) by simp
  from Cons.IH [OF p Cons.prems(2,3)] obtain sc' where
    r: "average_scores ags N ?sc1 = Inr sc'"
    and all: "\<forall>ag' \<in> set ags. sc' (agent_name ag') = Some b"
    and out: "\<forall>name. name \<notin> agent_name ` set ags \<longrightarrow> sc' name = ?sc1 name"
    by blast
  have "average_scores (ag # ags) N sc = Inr sc'" using row fr r by simp
  moreover have "sc' (agent_name ag) = Some b"
  proof (cases "agent_name ag \<in> agent_name ` set ags")
    case True
    then show ?thesis using all by auto
  next
    case False
    then show ?thesis using out by simp
  qed
  moreover have "\<forall>name. name \<notin> agent_name ` set (ag # ags) \<longrightarrow> sc' name = sc name"
    using out by simp
  ultimately show ?case using all by simp
qed

lemma init_scores_row:
  "ag \<in> set agents \<Longrightarrow> init_scores agents T (agent_name ag) = Some (replicate T (Fin 0))"
  by (simp add: init_scores_lookup)

lemma cumsum_from_NaN: "cumsum_from NaN xs = replicate (length xs) NaN"
  by (induction xs) simp_all

lemma cumsum_from_zeros: "cumsum_from (Fin 0) (replicate n (Fin 0)) = replicate n (Fin 0)"
  by (induction n) simp_all

lemma average_zero_trials_zeros:
  "map (\<lambda>x. fdiv x (Fin (real (0::nat)))) (np_cumsum (replicate T (Fin 0))) = replicate T NaN"
  by (simp add: np_cumsum_def cumsum_from_zeros)

lemma average_zero_trials_nans:
  "map (\<lambda>x. fdiv x (Fin (real (0::nat)))) (np_cumsum (replicate T NaN)) = replicate T NaN"
proof -
  have "np_cumsum (replicate T NaN) = replicate T NaN"
    by (cases T) (simp_all add: np_cumsum_def cumsum_from_NaN)
  then show ?thesis by simp
qed


text \<open>
  Claim C6, amended. No configuration is checked. Constructing a bandit with no arms
  succeeds; with no arms, at least one step and at least one trial, \<^verbatim>\<open>get_regret\<close> raises
  the ValueError of \<^verbatim>\<open>np.max\<close> on an empty array at its first step; with zero steps it
  returns a mapping from every agent name to an empty sequence; with zero trials it
  returns a mapping from every agent name to a sequence of NaN, one per step.
\<close>

theorem invalid_configuration:
  "bandit_init ops 0 g = Inr (\<lparr>probs = []\<rparr>, g)
   \<and> (probs env = [] \<and> 1 \<le> n_steps \<and> 1 \<le> n_trials
        \<longrightarrow> get_regret ops env agents n_steps n_trials g = Inl ValueError)
   \<and> (\<exists>sc. get_regret ops env agents 0 n_trials g = Inr sc
         \<and> (\<forall>ag \<in> set agents. sc (agent_name ag) = Some []))
   \<and> (\<exists>sc. get_regret ops env agents n_steps 0 g = Inr sc
         \<and> (\<forall>ag \<in> set agents. sc (agent_name ag) = Some (replicate n_steps NaN)))"
proof (intro conjI impI)
  show "bandit_init ops 0 g = Inr (\<lparr>probs = []\<rparr>, g)" by (simp add: bandit_init_def)
next
  assume h: "probs env = [] \<and> 1 \<le> n_steps \<and> 1 \<le> n_trials"
  then obtain t n where "n_steps = Suc t" "n_trials = Suc n"
    by (metis One_nat_def Suc_le_D)
  with h trials_loop_no_arms [of env ops t n 0 agents "init_scores agents n_steps" g "[]"]
  show "get_regret ops env agents n_steps n_trials g = Inl ValueError"
    by (simp add: get_regret_def get_regret_history_def)
next
  from trials_loop_no_steps [of ops n_trials 0 env agents "init_scores agents 0" g "[]"]
  obtain agents' where
    t: "trials_loop ops 0 n_trials 0 env agents (init_scores agents 0) g [] = Inr (env, agents', init_scores agents 0, g, [])"
    by blast
  have rows: "\<forall>ag \<in> set agents. init_scores agents 0 (agent_name ag) = Some []
                \<or> init_scores agents 0 (agent_name ag) = Some []"
    using init_scores_row [of _ agents 0] by simp
  have f: "map (\<lambda>x. fdiv x (Fin (real n_trials))) (np_cumsum []) = []" by (simp add: np_cumsum_def)
  from average_scores_rows [OF rows f f] obtain sc where
    a: "average_scores agents n_trials (init_scores agents 0) = Inr sc"
    and all: "\<forall>ag \<in> set agents. sc (agent_name ag) = Some []" by blast
  have "get_regret ops env agents 0 n_trials g = Inr sc"
    using t a by (simp add: get_regret_def get_regret_history_def)
  with all show "\<exists>sc. get_regret ops env agents 0 n_trials g = Inr sc
         \<and> (\<forall>ag \<in> set agents. sc (agent_name ag) = Some [])" by blast
next
  have rows: "\<forall>ag \<in> set agents. init_scores agents n_steps (agent_name ag) = Some (replicate n_steps (Fin 0))
                \<or> init_scores agents n_steps (agent_name ag) = Some (replicate n_steps NaN)"
    using init_scores_row [of _ agents n_steps] by simp
  from average_scores_rows [OF rows average_zero_trials_zeros average_zero_trials_nans] obtain sc where
    a: "average_scores agents 0 (init_scores agents n_steps) = Inr sc"
    and all: "\<forall>ag \<in> set agents. sc (agent_name ag) = Some (replicate n_steps NaN)" by blast
  have "get_regret ops env agents n_steps 0 g = Inr sc"
    using a by (simp add: get_regret_def get_regret_history_def)
  with all show "\<exists>sc. get_regret ops env agents n_steps 0 g = Inr sc
         \<and> (\<forall>ag \<in> set agents. sc (agent_name ag) = Some (replicate n_steps NaN))" by blast
qed

theorem invalid_configuration_witness:
  "probs \<lparr>probs = []\<rparr> = [] \<and> (1::nat) \<le> 2 \<and> (1::nat) \<le> 3
   \<and> bandit_init recording_source 0 [] = Inr (\<lparr>probs = []\<rparr>, [])
   \<and> get_regret recording_source \<lparr>probs = []\<rparr> [RandomAgent recording_source] 2 3 [] = Inl ValueError
   \<and> (\<exists>sc. get_regret recording_source \<lparr>probs = [1/4]\<rparr> [RandomAgent recording_source] 0 3 [] = Inr sc
         \<and> sc ''RandomAgent'' = Some [])
   \<and> (\<exists>sc. get_regret recording_source \<lparr>probs = [1/4]\<rparr> [RandomAgent recording_source] 2 0 [] = Inr sc
         \<and> sc ''RandomAgent'' = Some [NaN, NaN])"
proof -
  have n: "agent_name (RandomAgent recording_source) = ''RandomAgent''" by (simp add: RandomAgent_def)
  have r: "replicate 2 NaN = [NaN, NaN]" by (simp add: eval_nat_numeral)
  from invalid_configuration [of recording_source "[]" "\<lparr>probs = []\<rparr>" 2 3 "[RandomAgent recording_source]"]
  have a: "bandit_init recording_source 0 [] = Inr (\<lparr>probs = []\<rparr>, [])"
    and b: "get_regret recording_source \<lparr>probs = []\<rparr> [RandomAgent recording_source] 2 3 [] = Inl ValueError"
    by simp_all
  from invalid_configuration [of recording_source "[]" "\<lparr>probs = [1/4]\<rparr>" 2 3 "[RandomAgent recording_source]"]
  have c: "\<exists>sc. get_regret recording_source \<lparr>probs = [1/4]\<rparr> [RandomAgent recording_source] 0 3 [] = Inr sc
         \<and> sc ''RandomAgent'' = Some []"
    and d: "\<exists>sc. get_regret recording_source \<lparr>probs = [1/4]\<rparr> [RandomAgent recording_source] 2 0 [] = Inr sc
         \<and> sc ''RandomAgent'' = Some [NaN, NaN]"
    by (simp_all add: n r)
  from a b c d show ?thesis by simp
qed

theorem no_configuration_check_counterexample:
  "(\<exists>sc. get_regret recording_source \<lparr>probs = [1/4]\<rparr> [RandomAgent recording_source] 0 1 [] = Inr sc
         \<and> sc ''RandomAgent'' = Some [])
   \<and> (\<exists>sc. get_regret recording_source \<lparr>probs = [1/4]\<rparr> [RandomAgent recording_source] 2 0 [] = Inr sc
         \<and> sc ''RandomAgent'' = Some [NaN, NaN])"
  by (simp add: run_defs eval_nat_numeral)

end
